theory Spec2Isabelle
  imports Main "HOL-Library.AList"
begin

section \<open>Text, positions and errors\<close>

text \<open>
  A Python \<open>str\<close> is a sequence of Unicode code points. A code point is a natural
  number here (a \<open>\U\<close> escape can produce any scalar value up to 0x10FFFF, which
  the 8-bit \<^typ>\<open>char\<close> cannot hold), a string is a list of them, and \<open>str\<close>
  turns an ASCII literal into such a list. A position is a zero-based index.
\<close>

type_synonym uchar = nat
type_synonym ustr = "uchar list"
type_synonym Pos = nat
type_synonym Key = "ustr list"

abbreviation ord :: "char \<Rightarrow> uchar" where
  "ord \<equiv> of_char"

definition str :: "string \<Rightarrow> ustr" where
  "str s = map ord s"

text \<open>The slice \<open>src[a:b]\<close> for \<open>0 \<le> a\<close>: it is cut at the end of the text.\<close>

definition slice :: "ustr \<Rightarrow> nat \<Rightarrow> nat \<Rightarrow> ustr" where
  "slice src a b = take (b - a) (drop a src)"

definition ASCII_CTRL :: "uchar set" where
  "ASCII_CTRL = set [0..<32] \<union> {127}"

definition ILLEGAL_BASIC_STR_CHARS :: "uchar set" where
  "ILLEGAL_BASIC_STR_CHARS = ASCII_CTRL - {9}"

definition ILLEGAL_MULTILINE_BASIC_STR_CHARS :: "uchar set" where
  "ILLEGAL_MULTILINE_BASIC_STR_CHARS = ASCII_CTRL - {9, 10, 13}"

definition ILLEGAL_LITERAL_STR_CHARS :: "uchar set" where
  "ILLEGAL_LITERAL_STR_CHARS = ILLEGAL_BASIC_STR_CHARS"

definition ILLEGAL_MULTILINE_LITERAL_STR_CHARS :: "uchar set" where
  "ILLEGAL_MULTILINE_LITERAL_STR_CHARS = ASCII_CTRL - {9, 10}"

definition ILLEGAL_COMMENT_CHARS :: "uchar set" where
  "ILLEGAL_COMMENT_CHARS = ILLEGAL_BASIC_STR_CHARS"

definition TOML_WS :: "uchar set" where
  "TOML_WS = {ord CHR '' '', 9}"

definition TOML_WS_AND_NEWLINE :: "uchar set" where
  "TOML_WS_AND_NEWLINE = TOML_WS \<union> {10}"

definition ascii_letters :: string where
  "ascii_letters = ''abcdefghijklmnopqrstuvwxyzABCDEFGHIJKLMNOPQRSTUVWXYZ''"

definition digits :: string where
  "digits = ''0123456789''"

definition hexdigits :: string where
  "hexdigits = ''0123456789abcdefABCDEF''"

definition BARE_KEY_CHARS :: "uchar set" where
  "BARE_KEY_CHARS = set (str (ascii_letters @ digits @ ''-_''))"

definition KEY_INITIAL_CHARS :: "uchar set" where
  "KEY_INITIAL_CHARS = BARE_KEY_CHARS \<union> {34, 39}"

definition BASIC_STR_ESCAPE_REPLACEMENTS :: "(ustr \<times> ustr) list" where
  "BASIC_STR_ESCAPE_REPLACEMENTS =
     [([92, ord CHR ''b''], [8]), ([92, ord CHR ''t''], [9]), ([92, ord CHR ''n''], [10]),
      ([92, ord CHR ''f''], [12]), ([92, ord CHR ''r''], [13]), ([92, 34], [34]),
      ([92, 92], [92])]"

text \<open>
  The text of an error message is kept as a constructor with the values the
  source interpolates into it; the location suffix is kept as a value too.
\<close>

datatype message =
    Invalid_statement
  | Expected_newline_or_end_of_document
  | Expected_char uchar
  | Found_invalid_character uchar
  | Can_not_declare_twice Key
  | Can_not_overwrite_a_value
  | Can_not_mutate_immutable_namespace Key
  | Expected_bracket_at_end_of_table_declaration
  | Found_at_end_of_array_declaration ustr
  | Can_not_define_twice Key
  | Expected_equals_after_key
  | Invalid_initial_character_for_key_part
  | Unclosed_array
  | Duplicate_inline_table_key ustr
  | Unclosed_inline_table
  | Unescaped_backslash_in_string
  | Unterminated_string
  | Invalid_hex_value
  | Escaped_character_not_unicode_scalar
  | Illegal_character uchar
  | Unexpected_sequence
  | Invalid_value

datatype coord = End_of_document | Line_column nat nat

text \<open>
  \<open>TOMLDecodeError\<close> is the repository's error. The others are the Python
  exceptions that library calls and indexing can raise.
\<close>

datatype exn =
    TOMLDecodeError message coord
  | KeyError
  | IndexError
  | ValueError
  | TypeError

definition count_char :: "ustr \<Rightarrow> uchar \<Rightarrow> nat \<Rightarrow> nat \<Rightarrow> nat" where
  "count_char src c lo hi = length (filter (\<lambda>x. x = c) (slice src lo hi))"

text \<open>\<open>src.rindex(c, 0, hi)\<close>: the highest index below \<open>hi\<close> that holds \<open>c\<close>.\<close>

fun rindex :: "ustr \<Rightarrow> uchar \<Rightarrow> nat \<Rightarrow> nat option" where
  "rindex src c 0 = None"
| "rindex src c (Suc i) =
     (if i < length src \<and> src ! i = c then Some i else rindex src c i)"

definition coord_repr :: "ustr \<Rightarrow> Pos \<Rightarrow> exn + coord" where
  "coord_repr src pos =
     (if pos \<ge> length src then Inr End_of_document
      else
        let line = count_char src 10 0 pos + 1 in
        if line = 1 then Inr (Line_column line (pos + 1))
        else (case rindex src 10 pos of
                None \<Rightarrow> Inl ValueError
              | Some i \<Rightarrow> Inr (Line_column line (pos - i))))"

definition suffixed_err :: "ustr \<Rightarrow> Pos \<Rightarrow> message \<Rightarrow> exn" where
  "suffixed_err src pos msg =
     (case coord_repr src pos of
        Inl e \<Rightarrow> e
      | Inr c \<Rightarrow> TOMLDecodeError msg c)"

definition is_unicode_scalar_value :: "int \<Rightarrow> bool" where
  "is_unicode_scalar_value codepoint \<longleftrightarrow>
     (0 \<le> codepoint \<and> codepoint \<le> 55295) \<or> (57344 \<le> codepoint \<and> codepoint \<le> 1114111)"

section \<open>Skipping\<close>

function skip_chars :: "ustr \<Rightarrow> Pos \<Rightarrow> uchar set \<Rightarrow> Pos" where
  "skip_chars src pos chars =
     (if pos < length src \<and> src ! pos \<in> chars then skip_chars src (pos + 1) chars
      else pos)"
  by pat_completeness auto
termination
  by (relation "measure (\<lambda>(src, pos, chars). length src - pos)") auto

declare skip_chars.simps [simp del]

function skip_until :: "ustr \<Rightarrow> Pos \<Rightarrow> uchar \<Rightarrow> uchar set \<Rightarrow> bool \<Rightarrow> exn + Pos" where
  "skip_until src pos expect_char error_on error_on_eof =
     (if pos \<ge> length src then
        (if error_on_eof then Inl (suffixed_err src pos (Expected_char expect_char))
         else Inr pos)
      else if src ! pos = expect_char then Inr pos
      else if src ! pos \<in> error_on then
        Inl (suffixed_err src pos (Found_invalid_character (src ! pos)))
      else skip_until src (pos + 1) expect_char error_on error_on_eof)"
  by pat_completeness auto
termination
  by (relation "measure (\<lambda>(src, pos, c, e, b). length src - pos)") auto

declare skip_until.simps [simp del]

definition expect_comment :: "ustr \<Rightarrow> Pos \<Rightarrow> exn + Pos" where
  "expect_comment src pos = skip_until src (pos + 1) 10 ILLEGAL_COMMENT_CHARS False"

definition skip_comment :: "ustr \<Rightarrow> Pos \<Rightarrow> exn + Pos" where
  "skip_comment src pos =
     (if pos < length src \<and> src ! pos = ord CHR ''#'' then expect_comment src pos
      else Inr pos)"

lemma skip_chars_ge: "pos \<le> skip_chars src pos chars"
proof (induction src pos chars rule: skip_chars.induct)
  case (1 src pos chars)
  show ?case
  proof (cases "pos < length src \<and> src ! pos \<in> chars")
    case True
    with "1.IH" have "pos + 1 \<le> skip_chars src (pos + 1) chars" by simp
    with True show ?thesis by (simp add: skip_chars.simps [of src pos chars])
  next
    case False
    then show ?thesis by (auto simp: skip_chars.simps [of src pos chars])
  qed
qed

lemma skip_chars_past_end: "length src \<le> pos \<Longrightarrow> skip_chars src pos chars = pos"
  by (simp add: skip_chars.simps [of src pos chars])

lemma skip_until_ge: "skip_until src pos c err eof = Inr pos' \<Longrightarrow> pos \<le> pos'"
proof (induction src pos c err eof rule: skip_until.induct)
  case (1 src pos c err eof)
  show ?case
  proof (cases "pos < length src \<and> src ! pos \<noteq> c \<and> src ! pos \<notin> err")
    case True
    with "1.prems" have "skip_until src (pos + 1) c err eof = Inr pos'"
      by (simp add: skip_until.simps [of src pos c err eof])
    with True "1.IH" have "pos + 1 \<le> pos'" by simp
    then show ?thesis by simp
  next
    case False
    with "1.prems" show ?thesis
      by (auto simp: skip_until.simps [of src pos c err eof] split: if_splits)
  qed
qed

lemma skip_comment_ge: "skip_comment src pos = Inr pos' \<Longrightarrow> pos \<le> pos'"
  by (auto simp: skip_comment_def expect_comment_def split: if_splits dest: skip_until_ge)

lemma skip_comment_past_end: "length src \<le> pos \<Longrightarrow> skip_comment src pos = Inr pos"
  by (simp add: skip_comment_def)

text \<open>
  The loop of \<open>skip_comments_and_array_ws\<close> stops when a round does not move; a round
  that moves moves forward and started inside the text.
\<close>

function skip_comments_and_array_ws :: "ustr \<Rightarrow> Pos \<Rightarrow> exn + Pos" where
  "skip_comments_and_array_ws src pos =
     (case skip_comment src (skip_chars src pos TOML_WS_AND_NEWLINE) of
        Inl e \<Rightarrow> Inl e
      | Inr pos' \<Rightarrow>
          if pos' = pos then Inr pos'
          else skip_comments_and_array_ws src pos')"
  by pat_completeness auto
termination
proof (relation "measure (\<lambda>(src, pos). length src - pos)")
  show "wf (measure (\<lambda>(src, pos). length src - pos))" by simp
next
  fix src :: ustr and pos pos' :: Pos
  assume c: "skip_comment src (skip_chars src pos TOML_WS_AND_NEWLINE) = Inr pos'"
    and ne: "pos' \<noteq> pos"
  have ge: "pos \<le> pos'"
    using skip_comment_ge [OF c] skip_chars_ge [of pos src TOML_WS_AND_NEWLINE] by simp
  have "pos < length src"
  proof (rule ccontr)
    assume "\<not> pos < length src"
    then have "length src \<le> pos" by simp
    with c have "pos' = pos" by (simp add: skip_chars_past_end skip_comment_past_end)
    with ne show False by simp
  qed
  with ge ne show "((src, pos'), (src, pos)) \<in> measure (\<lambda>(src, pos). length src - pos)"
    by simp
qed

declare skip_comments_and_array_ws.simps [simp del]

section \<open>Python's \<open>int\<close>\<close>

text \<open>
  \<open>int(s, base)\<close> on the literals the parser hands it: an optional sign, then digits
  of the base, with single underscores allowed between digits. Anything else is a
  \<open>ValueError\<close> here. (Python also accepts surrounding whitespace, a base prefix and
  non-ASCII digits; no caller in this file passes such text unless a tokenizer pattern
  matched it.)
\<close>

definition digit_value :: "uchar \<Rightarrow> nat option" where
  "digit_value c =
     (if ord CHR ''0'' \<le> c \<and> c \<le> ord CHR ''9'' then Some (c - ord CHR ''0'')
      else if ord CHR ''a'' \<le> c \<and> c \<le> ord CHR ''z'' then Some (c - ord CHR ''a'' + 10)
      else if ord CHR ''A'' \<le> c \<and> c \<le> ord CHR ''Z'' then Some (c - ord CHR ''A'' + 10)
      else None)"

definition is_digit_of :: "nat \<Rightarrow> uchar \<Rightarrow> bool" where
  "is_digit_of base c = (case digit_value c of None \<Rightarrow> False | Some v \<Rightarrow> v < base)"

fun int_digits :: "nat \<Rightarrow> int \<Rightarrow> ustr \<Rightarrow> int option" where
  "int_digits base acc [] = Some acc"
| "int_digits base acc (c # cs) =
     (if c = ord CHR ''_'' then
        (case cs of
           [] \<Rightarrow> None
         | d # _ \<Rightarrow> if is_digit_of base d then int_digits base acc cs else None)
      else
        (case digit_value c of
           None \<Rightarrow> None
         | Some v \<Rightarrow> if v < base then int_digits base (acc * int base + int v) cs else None))"

definition int_unsigned :: "nat \<Rightarrow> ustr \<Rightarrow> int option" where
  "int_unsigned base s =
     (case s of
        [] \<Rightarrow> None
      | c # _ \<Rightarrow> if is_digit_of base c then int_digits base 0 s else None)"

definition py_int :: "nat \<Rightarrow> ustr \<Rightarrow> exn + int" where
  "py_int base s =
     (case s of
        [] \<Rightarrow> Inl ValueError
      | c # cs \<Rightarrow>
          if c = ord CHR ''-'' then
            (case int_unsigned base cs of None \<Rightarrow> Inl ValueError | Some n \<Rightarrow> Inr (- n))
          else if c = ord CHR ''+'' then
            (case int_unsigned base cs of None \<Rightarrow> Inl ValueError | Some n \<Rightarrow> Inr n)
          else
            (case int_unsigned base s of None \<Rightarrow> Inl ValueError | Some n \<Rightarrow> Inr n))"

section \<open>Strings\<close>

definition parse_hex_char :: "ustr \<Rightarrow> Pos \<Rightarrow> nat \<Rightarrow> exn + Pos \<times> ustr" where
  "parse_hex_char src pos hex_len =
     (let hex_str = slice src pos (pos + hex_len) in
      if length hex_str \<noteq> hex_len \<or> (\<exists>c \<in> set hex_str. c \<notin> set (str hexdigits)) then
        Inl (suffixed_err src pos Invalid_hex_value)
      else
        let pos = pos + hex_len in
        (case py_int 16 hex_str of
           Inl e \<Rightarrow> Inl e
         | Inr hex_int \<Rightarrow>
             if \<not> is_unicode_scalar_value hex_int then
               Inl (suffixed_err src pos Escaped_character_not_unicode_scalar)
             else Inr (pos, [nat hex_int])))"

definition parse_basic_str_escape :: "ustr \<Rightarrow> Pos \<Rightarrow> bool \<Rightarrow> exn + Pos \<times> ustr" where
  "parse_basic_str_escape src pos0 multiline =
     (let escape_id = slice src pos0 (pos0 + 2); pos = pos0 + 2 in
      if multiline \<and> escape_id \<in> {[92, ord CHR '' ''], [92, 9], [92, 10]} then
        (if escape_id \<noteq> [92, 10] then
           (let pos = skip_chars src pos TOML_WS; char = slice src pos (pos + 1) in
            if char = [] then Inr (pos, [])
            else if char \<noteq> [10] then Inl (suffixed_err src pos Unescaped_backslash_in_string)
            else Inr (skip_chars src (pos + 1) TOML_WS_AND_NEWLINE, []))
         else Inr (skip_chars src pos TOML_WS_AND_NEWLINE, []))
      else
        (case map_of BASIC_STR_ESCAPE_REPLACEMENTS escape_id of
           Some r \<Rightarrow> Inr (pos, r)
         | None \<Rightarrow>
             if escape_id = [92, ord CHR ''u''] then parse_hex_char src pos 4
             else if escape_id = [92, ord CHR ''U''] then parse_hex_char src pos 8
             else if length escape_id \<noteq> 2 then Inl (suffixed_err src pos Unterminated_string)
             else Inl (suffixed_err src pos Unescaped_backslash_in_string)))"

definition parse_basic_str_escape_multiline :: "ustr \<Rightarrow> Pos \<Rightarrow> exn + Pos \<times> ustr" where
  "parse_basic_str_escape_multiline src pos = parse_basic_str_escape src pos True"

text \<open>
  \<open>parse_string\<close> takes the escape parser as an optional function. Its callers pass
  one of two functions or nothing, so the parameter is the name of the function.
\<close>

datatype escape_parser = Basic_str_escape | Basic_str_escape_multiline

definition call_escape_parser :: "escape_parser \<Rightarrow> ustr \<Rightarrow> Pos \<Rightarrow> exn + Pos \<times> ustr" where
  "call_escape_parser f src pos =
     (case f of
        Basic_str_escape \<Rightarrow> parse_basic_str_escape src pos False
      | Basic_str_escape_multiline \<Rightarrow> parse_basic_str_escape_multiline src pos)"

lemma parse_hex_char_ge: "parse_hex_char src pos n = Inr (pos', r) \<Longrightarrow> pos \<le> pos'"
  by (auto simp: parse_hex_char_def Let_def split: if_splits sum.splits)

lemma parse_basic_str_escape_gt:
  assumes "parse_basic_str_escape src pos ml = Inr (pos', r)"
  shows "pos < pos'"
proof -
  have a: "pos + 2 \<le> skip_chars src (pos + 2) cs" for cs by (rule skip_chars_ge)
  have b: "pos + 2 \<le> skip_chars src (skip_chars src (pos + 2) TOML_WS + 1) cs" for cs
    using skip_chars_ge [of "skip_chars src (pos + 2) TOML_WS + 1" src cs]
      skip_chars_ge [of "pos + 2" src TOML_WS] by simp
  have c: "parse_hex_char src (Suc (Suc pos)) n = Inr (pos', r) \<Longrightarrow> pos < pos'" for n
    using parse_hex_char_ge [of src "Suc (Suc pos)" n pos' r] by simp
  from assms show ?thesis
    unfolding parse_basic_str_escape_def Let_def
    using a [of TOML_WS] a [of TOML_WS_AND_NEWLINE] b [of TOML_WS_AND_NEWLINE]
    by (auto split: if_splits option.splits dest: c)
qed

lemma call_escape_parser_gt: "call_escape_parser f src pos = Inr (pos', r) \<Longrightarrow> pos < pos'"
  by (cases f)
    (auto simp: call_escape_parser_def parse_basic_str_escape_multiline_def
      dest: parse_basic_str_escape_gt)

function parse_string_loop ::
  "ustr \<Rightarrow> Pos \<Rightarrow> uchar \<Rightarrow> nat \<Rightarrow> uchar set \<Rightarrow> escape_parser option \<Rightarrow> ustr \<Rightarrow> Pos
    \<Rightarrow> exn + Pos \<times> ustr" where
  "parse_string_loop src pos delim delim_len error_on parse_escapes result start_pos =
     (if pos \<ge> length src then Inl (suffixed_err src pos Unterminated_string)
      else
        let char = src ! pos in
        if char = delim then
          (if slice src (pos + 1) (pos + delim_len) = replicate (delim_len - 1) delim then
             Inr (pos + delim_len, result @ slice src start_pos pos)
           else parse_string_loop src (pos + 1) delim delim_len error_on parse_escapes
                  result start_pos)
        else if parse_escapes \<noteq> None \<and> char = 92 then
          (case call_escape_parser (the parse_escapes) src pos of
             Inl e \<Rightarrow> Inl e
           | Inr (pos', parsed_escape) \<Rightarrow>
               parse_string_loop src pos' delim delim_len error_on parse_escapes
                 ((result @ slice src start_pos pos) @ parsed_escape) pos')
        else if char \<in> error_on then Inl (suffixed_err src pos (Illegal_character char))
        else parse_string_loop src (pos + 1) delim delim_len error_on parse_escapes
               result start_pos)"
  by pat_completeness auto
termination
proof (relation "measure (\<lambda>(src, pos, d, dl, eo, pe, r, sp). length src - pos)")
  show "wf (measure (\<lambda>(src, pos, d, dl, eo, pe, r, sp). length src - pos))" by simp
qed (auto dest: call_escape_parser_gt)

declare parse_string_loop.simps [simp del]

definition parse_string ::
  "ustr \<Rightarrow> Pos \<Rightarrow> uchar \<Rightarrow> nat \<Rightarrow> uchar set \<Rightarrow> escape_parser option \<Rightarrow> exn + Pos \<times> ustr" where
  "parse_string src pos delim delim_len error_on parse_escapes =
     parse_string_loop src pos delim delim_len error_on parse_escapes [] pos"

definition parse_basic_str :: "ustr \<Rightarrow> Pos \<Rightarrow> exn + Pos \<times> ustr" where
  "parse_basic_str src pos =
     parse_string src (pos + 1) 34 1 ILLEGAL_BASIC_STR_CHARS (Some Basic_str_escape)"

definition parse_literal_str :: "ustr \<Rightarrow> Pos \<Rightarrow> exn + Pos \<times> ustr" where
  "parse_literal_str src pos =
     (let start_pos = pos + 1 in
      case skip_until src start_pos 39 ILLEGAL_LITERAL_STR_CHARS True of
        Inl e \<Rightarrow> Inl e
      | Inr pos \<Rightarrow> Inr (pos + 1, slice src start_pos pos))"

definition parse_multiline_str :: "ustr \<Rightarrow> Pos \<Rightarrow> bool \<Rightarrow> exn + Pos \<times> ustr" where
  "parse_multiline_str src pos0 literal =
     (let pos = pos0 + 3;
          pos = (if slice src pos (pos + 1) = [10] then pos + 1 else pos);
          delim = (if literal then 39 else 34);
          illegal_chars = (if literal then ILLEGAL_MULTILINE_LITERAL_STR_CHARS
                           else ILLEGAL_MULTILINE_BASIC_STR_CHARS);
          escape_parser = (if literal then None else Some Basic_str_escape_multiline)
      in
      case parse_string src pos delim 3 illegal_chars escape_parser of
        Inl e \<Rightarrow> Inl e
      | Inr (pos, result) \<Rightarrow>
          if slice src pos (pos + 1) \<noteq> [delim] then Inr (pos, result)
          else if slice src (pos + 1) (pos + 2) \<noteq> [delim] then Inr (pos + 1, result @ [delim])
          else Inr (pos + 2, result @ replicate 2 delim))"

section \<open>Values and the document tree\<close>

text \<open>
  Python's \<open>date\<close>, \<open>time\<close> and \<open>datetime\<close> objects. A \<open>tzinfo\<close> is absent or a
  fixed offset from UTC, kept in minutes. The float type is whatever the caller's
  \<open>parse_float\<close> returns.
\<close>

record pydate =
  year :: int
  month :: int
  day :: int

record pytime =
  hour :: int
  minute :: int
  second :: int
  microsecond :: int

datatype 'f val =
    VStr ustr
  | VInt int
  | VFloat 'f
  | VBool bool
  | VDate pydate
  | VTime pytime
  | VDatetime pydate pytime "int option"
  | VList "'f val list"
  | VDict "(ustr \<times> 'f val) list"

type_synonym 'f dict = "(ustr \<times> 'f val) list"

definition is_container :: "'f val \<Rightarrow> bool" where
  "is_container v = (case v of VDict _ \<Rightarrow> True | VList _ \<Rightarrow> True | _ \<Rightarrow> False)"

fun and_then :: "exn + 'a \<Rightarrow> ('a \<Rightarrow> exn + 'b) \<Rightarrow> exn + 'b" where
  "and_then (Inl e) f = Inl e"
| "and_then (Inr x) f = f x"

definition is_leap :: "int \<Rightarrow> bool" where
  "is_leap y \<longleftrightarrow> y mod 4 = 0 \<and> (y mod 100 \<noteq> 0 \<or> y mod 400 = 0)"

definition days_in_month :: "int \<Rightarrow> int \<Rightarrow> int" where
  "days_in_month y m =
     (if m = 2 then (if is_leap y then 29 else 28)
      else if m \<in> {4, 6, 9, 11} then 30 else 31)"

text \<open>The constructors raise \<open>ValueError\<close> on a field out of range.\<close>

definition date :: "int \<Rightarrow> int \<Rightarrow> int \<Rightarrow> exn + pydate" where
  "date y m d =
     (if 1 \<le> y \<and> y \<le> 9999 \<and> 1 \<le> m \<and> m \<le> 12 \<and> 1 \<le> d \<and> d \<le> days_in_month y m
      then Inr \<lparr>year = y, month = m, day = d\<rparr>
      else Inl ValueError)"

definition time :: "int \<Rightarrow> int \<Rightarrow> int \<Rightarrow> int \<Rightarrow> exn + pytime" where
  "time h mi s us =
     (if 0 \<le> h \<and> h \<le> 23 \<and> 0 \<le> mi \<and> mi \<le> 59 \<and> 0 \<le> s \<and> s \<le> 59 \<and> 0 \<le> us \<and> us \<le> 999999
      then Inr \<lparr>hour = h, minute = mi, second = s, microsecond = us\<rparr>
      else Inl ValueError)"

definition datetime ::
  "int \<Rightarrow> int \<Rightarrow> int \<Rightarrow> int \<Rightarrow> int \<Rightarrow> int \<Rightarrow> int \<Rightarrow> int option \<Rightarrow> exn + 'f val" where
  "datetime y m d h mi s us tz =
     and_then (date y m d) (\<lambda>dt. and_then (time h mi s us) (\<lambda>t. Inr (VDatetime dt t tz)))"

text \<open>
  \<open>timezone(timedelta(hours=h, minutes=m))\<close>: the offset must lie strictly between
  minus and plus 24 hours.
\<close>

definition timezone :: "int \<Rightarrow> int \<Rightarrow> exn + int" where
  "timezone hours minutes =
     (let off = 60 * hours + minutes in
      if - 1440 < off \<and> off < 1440 then Inr off else Inl ValueError)"

definition timezone_utc :: int where
  "timezone_utc = 0"

subsection \<open>Flags\<close>

datatype flag = FROZEN | EXPLICIT_NEST

datatype flag_node =
  Flag_node (flags: "flag set") (recursive_flags: "flag set") (nested: "(ustr \<times> flag_node) list")

type_synonym flag_dict = "(ustr \<times> flag_node) list"

definition empty_node :: flag_node where
  "empty_node = Flag_node {} {} []"

text \<open>
  The methods of \<open>Flags\<close> walk \<open>self._flags\<close> and change a node in place. Here they
  take the dictionary and return the changed one. \<open>key[-1]\<close> of an empty key is an
  \<open>IndexError\<close>.
\<close>

fun unset_all :: "flag_dict \<Rightarrow> Key \<Rightarrow> exn + flag_dict" where
  "unset_all cont [] = Inl IndexError"
| "unset_all cont [k] = Inr (AList.delete k cont)"
| "unset_all cont (k # k' # ks) =
     (case map_of cont k of
        None \<Rightarrow> Inr cont
      | Some node \<Rightarrow>
          and_then (unset_all (nested node) (k' # ks))
            (\<lambda>n. Inr (AList.update k (Flag_node (flags node) (recursive_flags node) n) cont)))"

fun set_flags_along :: "flag_dict \<Rightarrow> Key \<Rightarrow> flag \<Rightarrow> flag_dict" where
  "set_flags_along cont [] flag = cont"
| "set_flags_along cont (k # ks) flag =
     (let node = (case map_of cont k of
                    Some n \<Rightarrow> Flag_node (insert flag (flags n)) (recursive_flags n) (nested n)
                  | None \<Rightarrow> Flag_node {flag} {} [])
      in AList.update k
           (Flag_node (flags node) (recursive_flags node)
              (set_flags_along (nested node) ks flag)) cont)"

fun set_for_relative_key :: "flag_dict \<Rightarrow> Key \<Rightarrow> Key \<Rightarrow> flag \<Rightarrow> flag_dict" where
  "set_for_relative_key cont [] rel_key flag = set_flags_along cont rel_key flag"
| "set_for_relative_key cont (k # ks) rel_key flag =
     (let node = (case map_of cont k of Some n \<Rightarrow> n | None \<Rightarrow> empty_node)
      in AList.update k
           (Flag_node (flags node) (recursive_flags node)
              (set_for_relative_key (nested node) ks rel_key flag)) cont)"

fun set_flag :: "flag_dict \<Rightarrow> Key \<Rightarrow> flag \<Rightarrow> bool \<Rightarrow> exn + flag_dict" where
  "set_flag cont [] flag recursive = Inl IndexError"
| "set_flag cont [key_stem] flag recursive =
     (let node = (case map_of cont key_stem of Some n \<Rightarrow> n | None \<Rightarrow> empty_node)
      in Inr (AList.update key_stem
                (if recursive
                 then Flag_node (flags node) (insert flag (recursive_flags node)) (nested node)
                 else Flag_node (insert flag (flags node)) (recursive_flags node) (nested node))
                cont))"
| "set_flag cont (k # k' # ks) flag recursive =
     (let node = (case map_of cont k of Some n \<Rightarrow> n | None \<Rightarrow> empty_node)
      in and_then (set_flag (nested node) (k' # ks) flag recursive)
           (\<lambda>n. Inr (AList.update k (Flag_node (flags node) (recursive_flags node) n) cont)))"

fun is_flag :: "flag_dict \<Rightarrow> Key \<Rightarrow> flag \<Rightarrow> bool" where
  "is_flag cont [] flag = False"
| "is_flag cont [key_stem] flag =
     (case map_of cont key_stem of
        Some n \<Rightarrow> flag \<in> flags n \<or> flag \<in> recursive_flags n
      | None \<Rightarrow> False)"
| "is_flag cont (k # k' # ks) flag =
     (case map_of cont k of
        None \<Rightarrow> False
      | Some inner_cont \<Rightarrow>
          if flag \<in> recursive_flags inner_cont then True
          else is_flag (nested inner_cont) (k' # ks) flag)"

subsection \<open>NestedDict\<close>

text \<open>
  \<open>get_or_create_nest\<close> returns a reference into the tree, which the caller may then
  write through. Here it returns the tree (with the tables it created) and the
  contents of the nest; \<open>put_nest\<close> is the write through that reference: it follows
  the same path and replaces the nest.
\<close>

fun get_or_create_nest :: "'f dict \<Rightarrow> Key \<Rightarrow> bool \<Rightarrow> exn + 'f dict \<times> 'f dict" where
  "get_or_create_nest cont [] access_lists = Inr (cont, cont)"
| "get_or_create_nest cont (k # ks) access_lists =
     (let cont1 = (if map_of cont k = None then AList.update k (VDict []) cont else cont) in
      case map_of cont1 k of
        Some (VList xs) \<Rightarrow>
          if access_lists then
            (if xs = [] then Inl IndexError
             else (case last xs of
                     VDict d \<Rightarrow>
                       and_then (get_or_create_nest d ks access_lists)
                         (\<lambda>(d', nest).
                            Inr (AList.update k (VList (butlast xs @ [VDict d'])) cont1, nest))
                   | _ \<Rightarrow> Inl KeyError))
          else Inl KeyError
      | Some (VDict d) \<Rightarrow>
          and_then (get_or_create_nest d ks access_lists)
            (\<lambda>(d', nest). Inr (AList.update k (VDict d') cont1, nest))
      | _ \<Rightarrow> Inl KeyError)"

fun put_nest :: "'f dict \<Rightarrow> Key \<Rightarrow> bool \<Rightarrow> 'f dict \<Rightarrow> 'f dict" where
  "put_nest cont [] access_lists new = new"
| "put_nest cont (k # ks) access_lists new =
     (case map_of cont k of
        Some (VList xs) \<Rightarrow>
          if access_lists \<and> xs \<noteq> [] then
            (case last xs of
               VDict d \<Rightarrow>
                 AList.update k
                   (VList (butlast xs @ [VDict (put_nest d ks access_lists new)])) cont
             | _ \<Rightarrow> cont)
          else cont
      | Some (VDict d) \<Rightarrow> AList.update k (VDict (put_nest d ks access_lists new)) cont
      | _ \<Rightarrow> cont)"

definition append_nest_to_list :: "'f dict \<Rightarrow> Key \<Rightarrow> exn + 'f dict" where
  "append_nest_to_list root key =
     and_then (get_or_create_nest root (butlast key) True)
       (\<lambda>(root', cont).
          if key = [] then Inl IndexError
          else
            let last_key = last key in
            case map_of cont last_key of
              Some (VList list) \<Rightarrow>
                Inr (put_nest root' (butlast key) True
                       (AList.update last_key (VList (list @ [VDict []])) cont))
            | Some _ \<Rightarrow> Inl KeyError
            | None \<Rightarrow>
                Inr (put_nest root' (butlast key) True
                       (AList.update last_key (VList [VDict []]) cont)))"

record 'f State =
  out :: "'f dict"
  flags_of :: flag_dict
  header_namespace :: Key

definition State_init :: "'f State" where
  "State_init = \<lparr>out = [], flags_of = [], header_namespace = []\<rparr>"

section \<open>Keys\<close>

definition parse_key_part :: "ustr \<Rightarrow> Pos \<Rightarrow> exn + Pos \<times> ustr" where
  "parse_key_part src pos =
     (if pos < length src \<and> src ! pos \<in> BARE_KEY_CHARS then
        (let start_pos = pos; pos = skip_chars src pos BARE_KEY_CHARS
         in Inr (pos, slice src start_pos pos))
      else if pos < length src \<and> src ! pos = 39 then parse_literal_str src pos
      else if pos < length src \<and> src ! pos = 34 then parse_basic_str src pos
      else Inl (suffixed_err src pos Invalid_initial_character_for_key_part))"

lemma parse_string_loop_ge:
  "parse_string_loop src pos d dl eo pe r sp = Inr (pos', res) \<Longrightarrow> pos \<le> pos'"
proof (induction src pos d dl eo pe r sp rule: parse_string_loop.induct)
  case (1 src pos d dl eo pe r sp)
  note unf = parse_string_loop.simps [of src pos d dl eo pe r sp]
  show ?case
  proof (cases "pos \<ge> length src")
    case True
    with "1.prems" show ?thesis by (simp add: unf)
  next
    case inside: False
    show ?thesis
    proof (cases "src ! pos = d")
      case True
      show ?thesis
      proof (cases "slice src (pos + 1) (pos + dl) = replicate (dl - 1) d")
        case True
        with "1.prems" inside \<open>src ! pos = d\<close> show ?thesis by (simp add: unf)
      next
        case False
        with "1.prems" inside \<open>src ! pos = d\<close>
        have "parse_string_loop src (pos + 1) d dl eo pe r sp = Inr (pos', res)"
          by (simp add: unf)
        with "1.IH"(1) inside \<open>src ! pos = d\<close> False have "pos + 1 \<le> pos'" by simp
        then show ?thesis by simp
      qed
    next
      case nd: False
      show ?thesis
      proof (cases "pe \<noteq> None \<and> src ! pos = 92")
        case True
        with "1.prems" inside nd obtain p e where
          c: "call_escape_parser (the pe) src pos = Inr (p, e)" and
          l: "parse_string_loop src p d dl eo pe ((r @ slice src sp pos) @ e) p = Inr (pos', res)"
          by (auto simp: unf Let_def split: sum.splits)
        from "1.IH"(2) [OF inside refl nd True c refl] l
        have "p \<le> pos'" by simp
        with call_escape_parser_gt [OF c] show ?thesis by simp
      next
        case ne: False
        with "1.prems" inside nd have ni: "src ! pos \<notin> eo"
          and l: "parse_string_loop src (pos + 1) d dl eo pe r sp = Inr (pos', res)"
          by (auto simp: unf Let_def split: if_splits)
        from "1.IH"(3) [OF inside refl nd ne ni] l have "pos + 1 \<le> pos'" by simp
        then show ?thesis by simp
      qed
    qed
  qed
qed

lemma parse_key_part_ge: "parse_key_part src pos = Inr (pos', part) \<Longrightarrow> pos \<le> pos'"
  by (auto simp: parse_key_part_def parse_literal_str_def parse_basic_str_def parse_string_def
      Let_def skip_chars_ge split: if_splits sum.splits
      dest!: parse_string_loop_ge skip_until_ge)

function parse_key_loop :: "ustr \<Rightarrow> Pos \<Rightarrow> Key \<Rightarrow> exn + Pos \<times> Key" where
  "parse_key_loop src pos key =
     (if \<not> (pos < length src \<and> src ! pos = ord CHR ''.'') then Inr (pos, key)
      else
        case parse_key_part src (skip_chars src (pos + 1) TOML_WS) of
          Inl e \<Rightarrow> Inl e
        | Inr (pos', key_part) \<Rightarrow>
            parse_key_loop src (skip_chars src pos' TOML_WS) (key @ [key_part]))"
  by pat_completeness auto
termination
proof (relation "measure (\<lambda>(src, pos, key). length src - pos)")
  show "wf (measure (\<lambda>(src, pos, key). length src - pos))" by simp
next
  fix src :: ustr and pos :: Pos and key :: Key and x and pos' :: Pos and part :: ustr
  assume a: "\<not> \<not> (pos < length src \<and> src ! pos = ord CHR ''.'')"
    and p: "parse_key_part src (skip_chars src (pos + 1) TOML_WS) = Inr x"
    and x: "(pos', part) = x"
  from p x have "parse_key_part src (skip_chars src (pos + 1) TOML_WS) = Inr (pos', part)"
    by simp
  from parse_key_part_ge [OF this] skip_chars_ge [of "pos + 1" src TOML_WS]
  have "pos + 1 \<le> pos'" by simp
  with skip_chars_ge [of pos' src TOML_WS] have "pos < skip_chars src pos' TOML_WS" by simp
  moreover from a have "pos < length src" by simp
  ultimately show "((src, skip_chars src pos' TOML_WS, key @ [part]), (src, pos, key))
      \<in> measure (\<lambda>(src, pos, key). length src - pos)" by simp
qed

declare parse_key_loop.simps [simp del]

definition parse_key :: "ustr \<Rightarrow> Pos \<Rightarrow> exn + Pos \<times> Key" where
  "parse_key src pos =
     (case parse_key_part src pos of
        Inl e \<Rightarrow> Inl e
      | Inr (pos, key_part) \<Rightarrow> parse_key_loop src (skip_chars src pos TOML_WS) [key_part])"

section \<open>The tokenizer\<close>

text \<open>
  The compiled patterns come from a module that is not among the sources. A pattern
  is a parameter here: a function from the text and a position to a match or nothing.
  A match gives the position of its end and its groups (a group that took no part in
  the match is \<open>None\<close>); \<open>match.group()\<close> is the text from the position to the end.
\<close>

record rematch =
  m_end :: Pos
  m_groups :: "ustr option list"

type_synonym pattern = "ustr \<Rightarrow> Pos \<Rightarrow> rematch option"

record patterns =
  RE_BIN :: pattern
  RE_DATETIME :: pattern
  RE_DEC_OR_FLOAT :: pattern
  RE_HEX :: pattern
  RE_LOCAL_TIME :: pattern
  RE_OCT :: pattern

type_synonym 'f ParseFloat = "ustr \<Rightarrow> exn + 'f"

definition match_group :: "ustr \<Rightarrow> Pos \<Rightarrow> rematch \<Rightarrow> ustr" where
  "match_group src pos m = slice src pos (m_end m)"

definition groups_at :: "rematch \<Rightarrow> nat \<Rightarrow> exn + ustr option" where
  "groups_at m i = (if i < length (m_groups m) then Inr (m_groups m ! i) else Inl IndexError)"

text \<open>\<open>int(groups[i])\<close>; \<open>int(None)\<close> is a \<open>TypeError\<close>.\<close>

definition int_of_group :: "rematch \<Rightarrow> nat \<Rightarrow> exn + int" where
  "int_of_group m i =
     and_then (groups_at m i)
       (\<lambda>g. case g of None \<Rightarrow> Inl TypeError | Some s \<Rightarrow> py_int 10 s)"

definition ljust :: "nat \<Rightarrow> uchar \<Rightarrow> ustr \<Rightarrow> ustr" where
  "ljust n c s = s @ replicate (n - length s) c"

text \<open>\<open>int(micros_str[1:].ljust(6, "0")[:6]) if micros_str else 0\<close>\<close>

definition micros_of :: "ustr option \<Rightarrow> exn + int" where
  "micros_of micros_str =
     (case micros_str of
        None \<Rightarrow> Inr 0
      | Some s \<Rightarrow> if s = [] then Inr 0 else py_int 10 (take 6 (ljust 6 (ord CHR ''0'') (drop 1 s))))"

definition parse_regex :: "ustr \<Rightarrow> Pos \<Rightarrow> pattern \<Rightarrow> exn + Pos \<times> ustr" where
  "parse_regex src pos regex =
     (case regex src pos of
        None \<Rightarrow> Inl (suffixed_err src pos Unexpected_sequence)
      | Some m \<Rightarrow> Inr (m_end m, match_group src pos m))"

definition parse_datetime :: "ustr \<Rightarrow> Pos \<Rightarrow> rematch \<Rightarrow> exn + Pos \<times> 'f val" where
  "parse_datetime src pos0 m =
     (let match_str = match_group src pos0 m; pos = m_end m in
      and_then (int_of_group m 0) (\<lambda>year.
      and_then (int_of_group m 1) (\<lambda>month.
      and_then (int_of_group m 2) (\<lambda>day.
      and_then (groups_at m 3) (\<lambda>hour_str.
        if hour_str = None then and_then (date year month day) (\<lambda>d. Inr (pos, VDate d))
        else
          and_then (py_int 10 (the hour_str)) (\<lambda>hour.
          and_then (int_of_group m 4) (\<lambda>minute.
          and_then (int_of_group m 5) (\<lambda>sec.
          and_then (groups_at m 6) (\<lambda>micros_str.
          and_then (groups_at m 7) (\<lambda>offset_hour_str.
          and_then (micros_of micros_str) (\<lambda>micros.
          and_then
            (if offset_hour_str \<noteq> None then
               (let offset_dir = (if ord CHR ''+'' \<in> set match_str then 1 else - 1) in
                and_then (py_int 10 (the offset_hour_str)) (\<lambda>oh.
                and_then (int_of_group m 8) (\<lambda>om.
                and_then (timezone (offset_dir * oh) (offset_dir * om)) (\<lambda>tz.
                  Inr (Some tz)))))
             else if ord CHR ''Z'' \<in> set match_str then Inr (Some timezone_utc)
             else Inr None)
            (\<lambda>tz.
          and_then (datetime year month day hour minute sec micros tz) (\<lambda>v.
            Inr (pos, v)
          ))))))))
      )))))"

definition parse_localtime :: "ustr \<Rightarrow> Pos \<Rightarrow> rematch \<Rightarrow> exn + Pos \<times> 'f val" where
  "parse_localtime src pos0 m =
     (let pos = m_end m in
      and_then (int_of_group m 0) (\<lambda>hour.
      and_then (int_of_group m 1) (\<lambda>minute.
      and_then (int_of_group m 2) (\<lambda>sec.
      and_then (groups_at m 3) (\<lambda>micros_str.
      and_then (micros_of micros_str) (\<lambda>micros.
      and_then (time hour minute sec micros) (\<lambda>t.
        Inr (pos, VTime t))))))))"

definition parse_dec_or_float ::
  "ustr \<Rightarrow> Pos \<Rightarrow> rematch \<Rightarrow> 'f ParseFloat \<Rightarrow> exn + Pos \<times> 'f val" where
  "parse_dec_or_float src pos0 m parse_float =
     (let match_str = match_group src pos0 m; pos = m_end m in
      if ord CHR ''.'' \<in> set match_str \<or> ord CHR ''e'' \<in> set match_str
         \<or> ord CHR ''E'' \<in> set match_str
      then and_then (parse_float match_str) (\<lambda>f. Inr (pos, VFloat f))
      else and_then (py_int 10 match_str) (\<lambda>i. Inr (pos, VInt i)))"

section \<open>Values\<close>

text \<open>
  The value parser is recursive through arrays and inline tables, and its loops end
  when the text does. The functions of this section and the statement loop take fuel:
  every call spends one unit, and \<open>None\<close> is "out of fuel". A result is
  \<open>Some (Inr x)\<close> for a return and \<open>Some (Inl e)\<close> for a raised exception.
\<close>

fun run_then :: "(exn + 'a) option \<Rightarrow> ('a \<Rightarrow> (exn + 'b) option) \<Rightarrow> (exn + 'b) option" where
  "run_then None f = None"
| "run_then (Some (Inl e)) f = Some (Inl e)"
| "run_then (Some (Inr x)) f = f x"

definition char_at :: "ustr \<Rightarrow> Pos \<Rightarrow> uchar option" where
  "char_at src pos = (if pos < length src then Some (src ! pos) else None)"

type_synonym 'a result = "(exn + 'a) option"

text \<open>
  Each function of the recursive group is written in two parts: its body, with the
  functions it calls as parameters (named after them, first in the list), and below
  the bodies the recursion that passes each body the functions themselves.
\<close>

definition parse_value_body ::
  "(Pos \<Rightarrow> (Pos \<times> 'f val list) result) \<Rightarrow> (Pos \<Rightarrow> (Pos \<times> 'f dict) result)
    \<Rightarrow> patterns \<Rightarrow> 'f ParseFloat \<Rightarrow> ustr \<Rightarrow> Pos \<Rightarrow> (Pos \<times> 'f val) result" where
  "parse_value_body parse_array parse_inline_table re parse_float src pos =
     (let char = char_at src pos in
      if char = Some 34 then
        (if slice src (pos + 1) (pos + 3) = [34, 34] then Some (and_then
             (parse_multiline_str src pos False) (\<lambda>(pos, s). Inr (pos, VStr s)))
         else Some (and_then (parse_basic_str src pos) (\<lambda>(pos, s). Inr (pos, VStr s))))
      else if char = Some 39 then
        (if slice src (pos + 1) (pos + 3) = [39, 39] then Some (and_then
             (parse_multiline_str src pos True) (\<lambda>(pos, s). Inr (pos, VStr s)))
         else Some (and_then (parse_literal_str src pos) (\<lambda>(pos, s). Inr (pos, VStr s))))
      else if char = Some (ord CHR ''t'') \<and> slice src (pos + 1) (pos + 4) = str ''rue'' then
        Some (Inr (pos + 4, VBool True))
      else if char = Some (ord CHR ''f'') \<and> slice src (pos + 1) (pos + 5) = str ''alse'' then
        Some (Inr (pos + 5, VBool False))
      else
        case RE_DATETIME re src pos of
          Some date_match \<Rightarrow> Some (parse_datetime src pos date_match)
        | None \<Rightarrow>
        case RE_LOCAL_TIME re src pos of
          Some localtime_match \<Rightarrow> Some (parse_localtime src pos localtime_match)
        | None \<Rightarrow>
        if char = Some (ord CHR ''0'') \<and> slice src (pos + 1) (pos + 2) = str ''x'' then
          Some (and_then (parse_regex src (pos + 2) (RE_HEX re)) (\<lambda>(pos, hex_str).
                and_then (py_int 16 hex_str) (\<lambda>i. Inr (pos, VInt i))))
        else if char = Some (ord CHR ''0'') \<and> slice src (pos + 1) (pos + 2) = str ''o'' then
          Some (and_then (parse_regex src (pos + 2) (RE_OCT re)) (\<lambda>(pos, oct_str).
                and_then (py_int 8 oct_str) (\<lambda>i. Inr (pos, VInt i))))
        else if char = Some (ord CHR ''0'') \<and> slice src (pos + 1) (pos + 2) = str ''b'' then
          Some (and_then (parse_regex src (pos + 2) (RE_BIN re)) (\<lambda>(pos, bin_str).
                and_then (py_int 2 bin_str) (\<lambda>i. Inr (pos, VInt i))))
        else
        case RE_DEC_OR_FLOAT re src pos of
          Some dec_match \<Rightarrow> Some (parse_dec_or_float src pos dec_match parse_float)
        | None \<Rightarrow>
        if char = Some (ord CHR ''['') then
          run_then (parse_array pos) (\<lambda>(pos, a). Some (Inr (pos, VList a)))
        else if char = Some (ord CHR ''{'') then
          run_then (parse_inline_table pos) (\<lambda>(pos, d). Some (Inr (pos, VDict d)))
        else
          let first_three = slice src pos (pos + 3) in
          if first_three \<in> {str ''inf'', str ''nan''} then
            Some (and_then (parse_float first_three) (\<lambda>f. Inr (pos + 3, VFloat f)))
          else
            let first_four = slice src pos (pos + 4) in
            if first_four \<in> {str ''-inf'', str ''+inf'', str ''-nan'', str ''+nan''} then
              Some (and_then (parse_float first_four) (\<lambda>f. Inr (pos + 4, VFloat f)))
            else Some (Inl (suffixed_err src pos Invalid_value)))"

definition parse_array_body ::
  "(Pos \<Rightarrow> 'f val list \<Rightarrow> (Pos \<times> 'f val list) result) \<Rightarrow> ustr \<Rightarrow> Pos
    \<Rightarrow> (Pos \<times> 'f val list) result" where
  "parse_array_body parse_array_loop src pos0 =
     run_then (Some (skip_comments_and_array_ws src (pos0 + 1))) (\<lambda>pos.
       if slice src pos (pos + 1) = str '']'' then Some (Inr (pos + 1, []))
       else parse_array_loop pos [])"

definition parse_array_loop_body ::
  "(Pos \<Rightarrow> (Pos \<times> 'f val) result) \<Rightarrow> (Pos \<Rightarrow> 'f val list \<Rightarrow> (Pos \<times> 'f val list) result)
    \<Rightarrow> ustr \<Rightarrow> Pos \<Rightarrow> 'f val list \<Rightarrow> (Pos \<times> 'f val list) result" where
  "parse_array_loop_body parse_value parse_array_loop src pos0 array0 =
     run_then (parse_value pos0) (\<lambda>(pos, val).
       let array = array0 @ [val] in
       run_then (Some (skip_comments_and_array_ws src pos)) (\<lambda>pos.
         let c = slice src pos (pos + 1) in
         if c = str '']'' then Some (Inr (pos + 1, array))
         else if c \<noteq> str '','' then Some (Inl (suffixed_err src pos Unclosed_array))
         else
           run_then (Some (skip_comments_and_array_ws src (pos + 1))) (\<lambda>pos.
             if slice src pos (pos + 1) = str '']'' then Some (Inr (pos + 1, array))
             else parse_array_loop pos array)))"

definition parse_inline_table_body ::
  "(Pos \<Rightarrow> 'f dict \<Rightarrow> flag_dict \<Rightarrow> (Pos \<times> 'f dict) result) \<Rightarrow> ustr \<Rightarrow> Pos
    \<Rightarrow> (Pos \<times> 'f dict) result" where
  "parse_inline_table_body parse_inline_table_loop src pos0 =
     (let pos = skip_chars src (pos0 + 1) TOML_WS in
      if slice src pos (pos + 1) = str ''}'' then Some (Inr (pos + 1, []))
      else parse_inline_table_loop pos [] [])"

definition parse_inline_table_loop_body ::
  "(Pos \<Rightarrow> (Pos \<times> Key \<times> 'f val) result)
    \<Rightarrow> (Pos \<Rightarrow> 'f dict \<Rightarrow> flag_dict \<Rightarrow> (Pos \<times> 'f dict) result)
    \<Rightarrow> ustr \<Rightarrow> Pos \<Rightarrow> 'f dict \<Rightarrow> flag_dict \<Rightarrow> (Pos \<times> 'f dict) result" where
  "parse_inline_table_loop_body parse_key_value_pair parse_inline_table_loop
       src pos0 nested_dict iflags =
     run_then (parse_key_value_pair pos0) (\<lambda>(pos, key, value).
       if key = [] then Some (Inl IndexError)
       else
         let key_parent = butlast key; key_stem = last key in
         if is_flag iflags key FROZEN then
           Some (Inl (suffixed_err src pos (Can_not_mutate_immutable_namespace key)))
         else
           case get_or_create_nest nested_dict key_parent False of
             Inl KeyError \<Rightarrow> Some (Inl (suffixed_err src pos Can_not_overwrite_a_value))
           | Inl e \<Rightarrow> Some (Inl e)
           | Inr (nested_dict, nest) \<Rightarrow>
               if map_of nest key_stem \<noteq> None then
                 Some (Inl (suffixed_err src pos (Duplicate_inline_table_key key_stem)))
               else
                 let nested_dict =
                       put_nest nested_dict key_parent False (AList.update key_stem value nest);
                     pos = skip_chars src pos TOML_WS;
                     c = slice src pos (pos + 1)
                 in
                 if c = str ''}'' then Some (Inr (pos + 1, nested_dict))
                 else if c \<noteq> str '','' then
                   Some (Inl (suffixed_err src pos Unclosed_inline_table))
                 else
                   run_then
                     (Some (if is_container value then set_flag iflags key FROZEN True
                            else Inr iflags))
                     (\<lambda>iflags.
                        parse_inline_table_loop (skip_chars src (pos + 1) TOML_WS)
                          nested_dict iflags))"

definition parse_key_value_pair_body ::
  "(Pos \<Rightarrow> (Pos \<times> 'f val) result) \<Rightarrow> ustr \<Rightarrow> Pos \<Rightarrow> (Pos \<times> Key \<times> 'f val) result" where
  "parse_key_value_pair_body parse_value src pos0 =
     run_then (Some (parse_key src pos0)) (\<lambda>(pos, key).
       if char_at src pos \<noteq> Some (ord CHR ''='') then
         Some (Inl (suffixed_err src pos Expected_equals_after_key))
       else
         run_then (parse_value (skip_chars src (pos + 1) TOML_WS))
           (\<lambda>(pos, value). Some (Inr (pos, key, value))))"

function parse_value ::
    "nat \<Rightarrow> patterns \<Rightarrow> 'f ParseFloat \<Rightarrow> ustr \<Rightarrow> Pos \<Rightarrow> (Pos \<times> 'f val) result"
  and parse_array ::
    "nat \<Rightarrow> patterns \<Rightarrow> 'f ParseFloat \<Rightarrow> ustr \<Rightarrow> Pos \<Rightarrow> (Pos \<times> 'f val list) result"
  and parse_array_loop ::
    "nat \<Rightarrow> patterns \<Rightarrow> 'f ParseFloat \<Rightarrow> ustr \<Rightarrow> Pos \<Rightarrow> 'f val list
      \<Rightarrow> (Pos \<times> 'f val list) result"
  and parse_inline_table ::
    "nat \<Rightarrow> patterns \<Rightarrow> 'f ParseFloat \<Rightarrow> ustr \<Rightarrow> Pos \<Rightarrow> (Pos \<times> 'f dict) result"
  and parse_inline_table_loop ::
    "nat \<Rightarrow> patterns \<Rightarrow> 'f ParseFloat \<Rightarrow> ustr \<Rightarrow> Pos \<Rightarrow> 'f dict \<Rightarrow> flag_dict
      \<Rightarrow> (Pos \<times> 'f dict) result"
  and parse_key_value_pair ::
    "nat \<Rightarrow> patterns \<Rightarrow> 'f ParseFloat \<Rightarrow> ustr \<Rightarrow> Pos \<Rightarrow> (Pos \<times> Key \<times> 'f val) result"
where
  "parse_value 0 re parse_float src pos = None"
| "parse_value (Suc n) re parse_float src pos =
     parse_value_body (\<lambda>p. parse_array n re parse_float src p)
       (\<lambda>p. parse_inline_table n re parse_float src p) re parse_float src pos"
| "parse_array 0 re parse_float src pos = None"
| "parse_array (Suc n) re parse_float src pos =
     parse_array_body (\<lambda>p a. parse_array_loop n re parse_float src p a) src pos"
| "parse_array_loop 0 re parse_float src pos array = None"
| "parse_array_loop (Suc n) re parse_float src pos array =
     parse_array_loop_body (\<lambda>p. parse_value n re parse_float src p)
       (\<lambda>p a. parse_array_loop n re parse_float src p a) src pos array"
| "parse_inline_table 0 re parse_float src pos = None"
| "parse_inline_table (Suc n) re parse_float src pos =
     parse_inline_table_body (\<lambda>p d f. parse_inline_table_loop n re parse_float src p d f)
       src pos"
| "parse_inline_table_loop 0 re parse_float src pos nested_dict iflags = None"
| "parse_inline_table_loop (Suc n) re parse_float src pos nested_dict iflags =
     parse_inline_table_loop_body (\<lambda>p. parse_key_value_pair n re parse_float src p)
       (\<lambda>p d f. parse_inline_table_loop n re parse_float src p d f) src pos nested_dict iflags"
| "parse_key_value_pair 0 re parse_float src pos = None"
| "parse_key_value_pair (Suc n) re parse_float src pos =
     parse_key_value_pair_body (\<lambda>p. parse_value n re parse_float src p) src pos"
  by pat_completeness auto
termination
  by (relation "measure (case_sum (case_sum fst (case_sum fst fst))
                                  (case_sum fst (case_sum fst fst)))") auto

section \<open>Statements\<close>

text \<open>
  A rule takes the state and returns the position after the statement together with
  the changed state. An exception ends the parse, so no state comes with it.
\<close>

definition create_dict_rule :: "ustr \<Rightarrow> Pos \<Rightarrow> 'f State \<Rightarrow> exn + Pos \<times> 'f State" where
  "create_dict_rule src pos0 state =
     and_then (parse_key src (skip_chars src (pos0 + 1) TOML_WS)) (\<lambda>(pos, key).
       if is_flag (flags_of state) key EXPLICIT_NEST \<or> is_flag (flags_of state) key FROZEN then
         Inl (suffixed_err src pos (Can_not_declare_twice key))
       else
         and_then (set_flag (flags_of state) key EXPLICIT_NEST False) (\<lambda>flags1.
           case get_or_create_nest (out state) key True of
             Inl KeyError \<Rightarrow> Inl (suffixed_err src pos Can_not_overwrite_a_value)
           | Inl e \<Rightarrow> Inl e
           | Inr (out1, nest) \<Rightarrow>
               if slice src pos (pos + 1) \<noteq> str '']'' then
                 Inl (suffixed_err src pos Expected_bracket_at_end_of_table_declaration)
               else
                 Inr (pos + 1,
                      state\<lparr>out := out1, flags_of := flags1, header_namespace := key\<rparr>)))"

definition create_list_rule :: "ustr \<Rightarrow> Pos \<Rightarrow> 'f State \<Rightarrow> exn + Pos \<times> 'f State" where
  "create_list_rule src pos0 state =
     and_then (parse_key src (skip_chars src (pos0 + 2) TOML_WS)) (\<lambda>(pos, key).
       if is_flag (flags_of state) key FROZEN then
         Inl (suffixed_err src pos (Can_not_mutate_immutable_namespace key))
       else
         and_then (unset_all (flags_of state) key) (\<lambda>flags1.
         and_then (set_flag flags1 key EXPLICIT_NEST False) (\<lambda>flags2.
           case append_nest_to_list (out state) key of
             Inl KeyError \<Rightarrow> Inl (suffixed_err src pos Can_not_overwrite_a_value)
           | Inl e \<Rightarrow> Inl e
           | Inr out1 \<Rightarrow>
               let end_marker = slice src pos (pos + 2) in
               if end_marker \<noteq> str '']]'' then
                 Inl (suffixed_err src pos (Found_at_end_of_array_declaration end_marker))
               else
                 Inr (pos + 2,
                      state\<lparr>out := out1, flags_of := flags2, header_namespace := key\<rparr>))))"

definition key_value_rule ::
  "nat \<Rightarrow> patterns \<Rightarrow> 'f ParseFloat \<Rightarrow> ustr \<Rightarrow> Pos \<Rightarrow> 'f State \<Rightarrow> (Pos \<times> 'f State) result" where
  "key_value_rule n re parse_float src pos0 state =
     run_then (parse_key_value_pair n re parse_float src pos0) (\<lambda>(pos, key, value).
       if key = [] then Some (Inl IndexError)
       else
         let key_parent = butlast key; key_stem = last key;
             abs_key_parent = header_namespace state @ key_parent;
             abs_key = header_namespace state @ key
         in
         if is_flag (flags_of state) abs_key_parent FROZEN then
           Some (Inl (suffixed_err src pos (Can_not_mutate_immutable_namespace abs_key_parent)))
         else
           let flags1 = set_for_relative_key (flags_of state) (header_namespace state) key
                          EXPLICIT_NEST
           in
           case get_or_create_nest (out state) abs_key_parent True of
             Inl KeyError \<Rightarrow> Some (Inl (suffixed_err src pos Can_not_overwrite_a_value))
           | Inl e \<Rightarrow> Some (Inl e)
           | Inr (out1, nest) \<Rightarrow>
               if map_of nest key_stem \<noteq> None then
                 Some (Inl (suffixed_err src pos (Can_not_define_twice abs_key)))
               else
                 Some (and_then
                   (if is_container value then set_flag flags1 abs_key FROZEN True
                    else Inr flags1)
                   (\<lambda>flags2.
                      Inr (pos,
                           state\<lparr>out := put_nest out1 abs_key_parent True
                                          (AList.update key_stem value nest),
                                 flags_of := flags2\<rparr>))))"

section \<open>The statement loop\<close>

text \<open>\<open>s.replace("\r\n", "\n")\<close>\<close>

fun replace_crlf :: "ustr \<Rightarrow> ustr" where
  "replace_crlf [] = []"
| "replace_crlf [c] = [c]"
| "replace_crlf (c # d # cs) =
     (if c = 13 \<and> d = 10 then 10 # replace_crlf cs else c # replace_crlf (d # cs))"

definition loads_loop_body ::
  "(Pos \<Rightarrow> 'f State \<Rightarrow> 'f dict result) \<Rightarrow> (Pos \<Rightarrow> 'f State \<Rightarrow> (Pos \<times> 'f State) result)
    \<Rightarrow> ustr \<Rightarrow> Pos \<Rightarrow> 'f State \<Rightarrow> 'f dict result" where
  "loads_loop_body loads_loop key_value_rule' src pos0 state =
     (let pos = skip_chars src pos0 TOML_WS in
      case char_at src pos of
        None \<Rightarrow> Some (Inr (out state))
      | Some char \<Rightarrow>
          if char = 10 then loads_loop (pos + 1) state
          else
            run_then
              (if char = ord CHR ''#'' then
                 Some (and_then (expect_comment src pos) (\<lambda>pos. Inr (pos, state)))
               else if char \<in> KEY_INITIAL_CHARS then key_value_rule' pos state
               else if slice src pos (pos + 2) = str ''[['' then
                 Some (create_list_rule src pos state)
               else if char = ord CHR ''['' then Some (create_dict_rule src pos state)
               else Some (Inl (suffixed_err src pos Invalid_statement)))
              (\<lambda>(pos, state).
                 run_then (Some (skip_comment src (skip_chars src pos TOML_WS))) (\<lambda>pos.
                   case char_at src pos of
                     None \<Rightarrow> Some (Inr (out state))
                   | Some char \<Rightarrow>
                       if char \<noteq> 10 then
                         Some (Inl (suffixed_err src pos Expected_newline_or_end_of_document))
                       else loads_loop (pos + 1) state)))"

fun loads_loop ::
  "nat \<Rightarrow> patterns \<Rightarrow> 'f ParseFloat \<Rightarrow> ustr \<Rightarrow> Pos \<Rightarrow> 'f State \<Rightarrow> 'f dict result" where
  "loads_loop 0 re parse_float src pos state = None"
| "loads_loop (Suc n) re parse_float src pos state =
     loads_loop_body (\<lambda>p st. loads_loop n re parse_float src p st)
       (\<lambda>p st. key_value_rule n re parse_float src p st) src pos state"

definition loads :: "nat \<Rightarrow> patterns \<Rightarrow> 'f ParseFloat \<Rightarrow> ustr \<Rightarrow> 'f dict result" where
  "loads n re parse_float s = loads_loop n re parse_float (replace_crlf s) 0 State_init"

section \<open>More fuel never changes a result\<close>

declare parse_value.simps [simp del] parse_array.simps [simp del]
  parse_array_loop.simps [simp del] parse_inline_table.simps [simp del]
  parse_inline_table_loop.simps [simp del] parse_key_value_pair.simps [simp del]
  loads_loop.simps [simp del]

lemmas fuel_zero [simp] = parse_value.simps(1) parse_array.simps(1) parse_array_loop.simps(1)
  parse_inline_table.simps(1) parse_inline_table_loop.simps(1) parse_key_value_pair.simps(1)
  loads_loop.simps(1)

lemma run_then_mono:
  assumes "run_then m k = Some r"
    and "\<And>x. m = Some x \<Longrightarrow> m' = Some x"
    and "\<And>x. m = Some (Inr x) \<Longrightarrow> k x = Some r \<Longrightarrow> k' x = Some r"
  shows "run_then m' k' = Some r"
proof (cases m)
  case None
  with assms(1) show ?thesis by simp
next
  case (Some s)
  with assms(2) have m': "m' = Some s" by simp
  show ?thesis
  proof (cases s)
    case (Inl e)
    with Some m' assms(1) show ?thesis by simp
  next
    case (Inr x)
    with Some m' assms(1) assms(3) [of x] show ?thesis by simp
  qed
qed

lemma parse_value_body_mono:
  assumes "parse_value_body pa pit re pf src pos = Some r"
    and a: "\<And>p x. pa p = Some x \<Longrightarrow> pa' p = Some x"
    and b: "\<And>p x. pit p = Some x \<Longrightarrow> pit' p = Some x"
  shows "parse_value_body pa' pit' re pf src pos = Some r"
  using assms(1) unfolding parse_value_body_def Let_def
  by (auto split: if_splits option.splits elim!: run_then_mono intro: a b)

lemma parse_array_body_mono:
  assumes "parse_array_body pal src pos = Some r"
    and a: "\<And>p arr x. pal p arr = Some x \<Longrightarrow> pal' p arr = Some x"
  shows "parse_array_body pal' src pos = Some r"
  using assms(1) unfolding parse_array_body_def Let_def
  by (auto split: if_splits option.splits elim!: run_then_mono intro: a)

lemma parse_array_loop_body_mono:
  assumes "parse_array_loop_body pv pal src pos arr = Some r"
    and a: "\<And>p arr x. pal p arr = Some x \<Longrightarrow> pal' p arr = Some x"
    and b: "\<And>p x. pv p = Some x \<Longrightarrow> pv' p = Some x"
  shows "parse_array_loop_body pv' pal' src pos arr = Some r"
  using assms(1) unfolding parse_array_loop_body_def Let_def
  by (auto split: if_splits option.splits elim!: run_then_mono intro: a b) (erule a)+

lemma parse_inline_table_body_mono:
  assumes "parse_inline_table_body pl src pos = Some r"
    and a: "\<And>p d f x. pl p d f = Some x \<Longrightarrow> pl' p d f = Some x"
  shows "parse_inline_table_body pl' src pos = Some r"
  using assms(1) unfolding parse_inline_table_body_def Let_def
  by (auto split: if_splits option.splits elim!: run_then_mono intro: a)

lemma parse_inline_table_loop_body_mono:
  assumes "parse_inline_table_loop_body kv pl src pos d f = Some r"
    and a: "\<And>p d f x. pl p d f = Some x \<Longrightarrow> pl' p d f = Some x"
    and b: "\<And>p x. kv p = Some x \<Longrightarrow> kv' p = Some x"
  shows "parse_inline_table_loop_body kv' pl' src pos d f = Some r"
  using assms(1) unfolding parse_inline_table_loop_body_def Let_def
  by (auto split: if_splits option.splits sum.splits exn.splits elim!: run_then_mono intro: a b)
    (erule a)+

lemma parse_key_value_pair_body_mono:
  assumes "parse_key_value_pair_body pv src pos = Some r"
    and b: "\<And>p x. pv p = Some x \<Longrightarrow> pv' p = Some x"
  shows "parse_key_value_pair_body pv' src pos = Some r"
  using assms(1) unfolding parse_key_value_pair_body_def Let_def
  by (auto split: if_splits option.splits elim!: run_then_mono intro: b)

lemma fuel_Suc:
  fixes re :: patterns and pf :: "'f ParseFloat"
  shows "(\<forall>src pos r. parse_value n re pf src pos = Some r
            \<longrightarrow> parse_value (Suc n) re pf src pos = Some r)
    \<and> (\<forall>src pos r. parse_array n re pf src pos = Some r
            \<longrightarrow> parse_array (Suc n) re pf src pos = Some r)
    \<and> (\<forall>src pos a r. parse_array_loop n re pf src pos a = Some r
            \<longrightarrow> parse_array_loop (Suc n) re pf src pos a = Some r)
    \<and> (\<forall>src pos r. parse_inline_table n re pf src pos = Some r
            \<longrightarrow> parse_inline_table (Suc n) re pf src pos = Some r)
    \<and> (\<forall>src pos d f r. parse_inline_table_loop n re pf src pos d f = Some r
            \<longrightarrow> parse_inline_table_loop (Suc n) re pf src pos d f = Some r)
    \<and> (\<forall>src pos r. parse_key_value_pair n re pf src pos = Some r
            \<longrightarrow> parse_key_value_pair (Suc n) re pf src pos = Some r)"
proof (induction n)
  case 0
  show ?case by simp
next
  case (Suc n)
  have pv: "parse_value (Suc n) re pf src pos = Some r"
    if "parse_value n re pf src pos = Some r" for src pos r
    using Suc that by simp
  have pa: "parse_array (Suc n) re pf src pos = Some r"
    if "parse_array n re pf src pos = Some r" for src pos r
    using Suc that by simp
  have pal: "parse_array_loop (Suc n) re pf src pos a = Some r"
    if "parse_array_loop n re pf src pos a = Some r" for src pos a r
    using Suc that by simp
  have pit: "parse_inline_table (Suc n) re pf src pos = Some r"
    if "parse_inline_table n re pf src pos = Some r" for src pos r
    using Suc that by simp
  have pil: "parse_inline_table_loop (Suc n) re pf src pos d f = Some r"
    if "parse_inline_table_loop n re pf src pos d f = Some r" for src pos d f r
    using Suc that by simp
  have kv: "parse_key_value_pair (Suc n) re pf src pos = Some r"
    if "parse_key_value_pair n re pf src pos = Some r" for src pos r
    using Suc that by simp
  have 1: "parse_value (Suc (Suc n)) re pf src pos = Some r"
    if "parse_value (Suc n) re pf src pos = Some r" for src pos r
    unfolding parse_value.simps(2) [of "Suc n"]
    by (rule parse_value_body_mono [OF that [unfolded parse_value.simps(2)]]) (erule pa pit)+
  have 2: "parse_array (Suc (Suc n)) re pf src pos = Some r"
    if "parse_array (Suc n) re pf src pos = Some r" for src pos r
    unfolding parse_array.simps(2) [of "Suc n"]
    by (rule parse_array_body_mono [OF that [unfolded parse_array.simps(2)]]) (erule pal)+
  have 3: "parse_array_loop (Suc (Suc n)) re pf src pos a = Some r"
    if "parse_array_loop (Suc n) re pf src pos a = Some r" for src pos a r
    unfolding parse_array_loop.simps(2) [of "Suc n"]
    by (rule parse_array_loop_body_mono [OF that [unfolded parse_array_loop.simps(2)]]) (erule pal pv)+
  have 4: "parse_inline_table (Suc (Suc n)) re pf src pos = Some r"
    if "parse_inline_table (Suc n) re pf src pos = Some r" for src pos r
    unfolding parse_inline_table.simps(2) [of "Suc n"]
    by (rule parse_inline_table_body_mono [OF that [unfolded parse_inline_table.simps(2)]]) (erule pil)+
  have 5: "parse_inline_table_loop (Suc (Suc n)) re pf src pos d f = Some r"
    if "parse_inline_table_loop (Suc n) re pf src pos d f = Some r" for src pos d f r
    unfolding parse_inline_table_loop.simps(2) [of "Suc n"]
    by (rule parse_inline_table_loop_body_mono [OF that [unfolded parse_inline_table_loop.simps(2)]]) (erule pil kv)+
  have 6: "parse_key_value_pair (Suc (Suc n)) re pf src pos = Some r"
    if "parse_key_value_pair (Suc n) re pf src pos = Some r" for src pos r
    unfolding parse_key_value_pair.simps(2) [of "Suc n"]
    by (rule parse_key_value_pair_body_mono [OF that [unfolded parse_key_value_pair.simps(2)]]) (erule pv)+
  from 1 2 3 4 5 6 show ?case by blast
qed

lemma parse_key_value_pair_Suc:
  "parse_key_value_pair n re pf src pos = Some r
    \<Longrightarrow> parse_key_value_pair (Suc n) re pf src pos = Some r"
  using fuel_Suc [of n re pf] by simp

lemma parse_value_Suc:
  "parse_value n re pf src pos = Some r \<Longrightarrow> parse_value (Suc n) re pf src pos = Some r"
  using fuel_Suc [of n re pf] by simp

lemma parse_key_value_pair_mono:
  assumes "parse_key_value_pair n re pf src pos = Some r" and "n \<le> m"
  shows "parse_key_value_pair m re pf src pos = Some r"
  using assms(2) assms(1)
  by (induction rule: dec_induct) (auto intro: parse_key_value_pair_Suc)

lemma parse_value_mono:
  assumes "parse_value n re pf src pos = Some r" and "n \<le> m"
  shows "parse_value m re pf src pos = Some r"
  using assms(2) assms(1)
  by (induction rule: dec_induct) (auto intro: parse_value_Suc)

lemma key_value_rule_mono:
  assumes "key_value_rule n re pf src pos st = Some r" and "n \<le> m"
  shows "key_value_rule m re pf src pos st = Some r"
  unfolding key_value_rule_def
proof (rule run_then_mono [OF assms(1) [unfolded key_value_rule_def]])
  fix x
  assume "parse_key_value_pair n re pf src pos = Some x"
  then show "parse_key_value_pair m re pf src pos = Some x"
    using assms(2) by (rule parse_key_value_pair_mono)
qed

lemma loads_loop_body_mono:
  assumes "loads_loop_body ll kv src pos st = Some r"
    and a: "\<And>p s x. ll p s = Some x \<Longrightarrow> ll' p s = Some x"
    and b: "\<And>p s x. kv p s = Some x \<Longrightarrow> kv' p s = Some x"
  shows "loads_loop_body ll' kv' src pos st = Some r"
  using assms(1) unfolding loads_loop_body_def Let_def
  by (auto split: if_splits option.splits elim!: run_then_mono intro: a b)

lemma loads_loop_Suc:
  "loads_loop n re pf src pos st = Some r \<Longrightarrow> loads_loop (Suc n) re pf src pos st = Some r"
proof (induction n arbitrary: pos st r)
  case 0
  then show ?case by simp
next
  case (Suc n)
  show ?case
    unfolding loads_loop.simps(2) [of "Suc n"]
    by (rule loads_loop_body_mono [OF Suc.prems [unfolded loads_loop.simps(2)]])
      (erule Suc.IH key_value_rule_mono [OF _ le_SucI [OF order_refl]])+
qed

lemma loads_mono:
  assumes "loads n re pf s = Some r" and "n \<le> m"
  shows "loads m re pf s = Some r"
  using assms(2) assms(1)
proof (induction rule: dec_induct)
  case base
  then show ?case .
next
  case (step k)
  then show ?case unfolding loads_def by (auto intro: loads_loop_Suc)
qed


section \<open>A tokenizer for the examples\<close>

text \<open>
  Modelled from the spec: the module of compiled patterns (\<open>tomli._re\<close>) is not among
  the sources. The spec names what its patterns recognise: hex, octal and binary
  integers, decimal integers and floats, offset and local date-times, local dates and
  local times, each anchored at a position, with the groups year, month, day, hour,
  minute, second, fraction, offset hour and offset minute for a date-time and hour,
  minute, second, fraction for a local time. The matchers below follow the format's
  grammar for these literals. The functions above take the patterns as a parameter;
  these matchers stand in for them where a theorem runs a concrete document.
\<close>

definition is_dec_digit :: "uchar \<Rightarrow> bool" where
  "is_dec_digit c \<longleftrightarrow> ord CHR ''0'' \<le> c \<and> c \<le> ord CHR ''9''"

text \<open>Modelled from the spec: the length of the longest prefix \<open>(?:_?D)*\<close>.\<close>

fun us_tail :: "(uchar \<Rightarrow> bool) \<Rightarrow> ustr \<Rightarrow> nat" where
  "us_tail D [] = 0"
| "us_tail D [c] = (if D c then 1 else 0)"
| "us_tail D (c # d # cs) =
     (if D c then 1 + us_tail D (d # cs)
      else if c = ord CHR ''_'' \<and> D d then 2 + us_tail D cs
      else 0)"

text \<open>Modelled from the spec: the length of the match of \<open>D(?:_?D)*\<close>, if any.\<close>

definition us_digits :: "(uchar \<Rightarrow> bool) \<Rightarrow> ustr \<Rightarrow> nat option" where
  "us_digits D s =
     (case s of [] \<Rightarrow> None | c # cs \<Rightarrow> if D c then Some (1 + us_tail D cs) else None)"

text \<open>Modelled from the spec: a pattern without groups, from the length of its match.\<close>

definition pattern_of :: "(ustr \<Rightarrow> nat option) \<Rightarrow> pattern" where
  "pattern_of f src pos =
     (case f (drop pos src) of
        None \<Rightarrow> None
      | Some n \<Rightarrow> Some \<lparr>m_end = pos + n, m_groups = []\<rparr>)"

text \<open>
  Modelled from the spec: a decimal integer or float,
  \<open>[+-]?(?:0|[1-9](?:_?[0-9])*)(?:\.[0-9](?:_?[0-9])*)?(?:[eE][+-]?[0-9](?:_?[0-9])*)?\<close>.
\<close>

definition match_dec_or_float :: "ustr \<Rightarrow> nat option" where
  "match_dec_or_float s =
     (let sign = (if char_at s 0 \<in> {Some (ord CHR ''+''), Some (ord CHR ''-'')} then 1 else 0);
          int_part = (if char_at s sign = Some (ord CHR ''0'') then Some 1
                      else us_digits is_dec_digit (drop sign s))
      in
      case int_part of
        None \<Rightarrow> None
      | Some i \<Rightarrow>
          let p = sign + i;
              frac = (if char_at s p = Some (ord CHR ''.'') then
                        (case us_digits is_dec_digit (drop (p + 1) s) of
                           None \<Rightarrow> 0 | Some k \<Rightarrow> 1 + k)
                      else 0);
              q = p + frac;
              esign = (if char_at s (q + 1) \<in> {Some (ord CHR ''+''), Some (ord CHR ''-'')}
                       then 1 else 0);
              ex = (if char_at s q \<in> {Some (ord CHR ''e''), Some (ord CHR ''E'')} then
                      (case us_digits is_dec_digit (drop (q + 1 + esign) s) of
                         None \<Rightarrow> 0 | Some k \<Rightarrow> 1 + esign + k)
                    else 0)
          in Some (q + ex))"

text \<open>Modelled from the spec: \<open>n\<close> decimal digits at the head of the text.\<close>

definition take_digits :: "nat \<Rightarrow> ustr \<Rightarrow> ustr option" where
  "take_digits n s =
     (if n \<le> length s \<and> list_all is_dec_digit (take n s) then Some (take n s) else None)"

text \<open>Modelled from the spec: a two-digit field with a value from \<open>lo\<close> to \<open>hi\<close>.\<close>

definition two_digits :: "nat \<Rightarrow> nat \<Rightarrow> ustr \<Rightarrow> ustr option" where
  "two_digits lo hi s =
     (case take_digits 2 s of
        None \<Rightarrow> None
      | Some t \<Rightarrow>
          let v = (t ! 0 - ord CHR ''0'') * 10 + (t ! 1 - ord CHR ''0'')
          in if lo \<le> v \<and> v \<le> hi then Some t else None)"

text \<open>
  Modelled from the spec: a local time,
  \<open>([01][0-9]|2[0-3]):([0-5][0-9]):([0-5][0-9])(\.[0-9]+)?\<close>: the length of the
  match and its four groups.
\<close>

definition match_time :: "ustr \<Rightarrow> (nat \<times> ustr option list) option" where
  "match_time s =
     (case two_digits 0 23 s of
        None \<Rightarrow> None
      | Some h \<Rightarrow>
     if char_at s 2 \<noteq> Some (ord CHR '':'') then None else
     case two_digits 0 59 (drop 3 s) of
        None \<Rightarrow> None
      | Some mi \<Rightarrow>
     if char_at s 5 \<noteq> Some (ord CHR '':'') then None else
     case two_digits 0 59 (drop 6 s) of
        None \<Rightarrow> None
      | Some sec \<Rightarrow>
          let frac = (if char_at s 8 = Some (ord CHR ''.'')
                      then length (takeWhile is_dec_digit (drop 9 s)) else 0)
          in if frac > 0
             then Some (9 + frac, [Some h, Some mi, Some sec, Some (take (1 + frac) (drop 8 s))])
             else Some (8, [Some h, Some mi, Some sec, None]))"

text \<open>
  Modelled from the spec: a date, then optionally \<open>T\<close> or a space and a time, then
  optionally \<open>Z\<close> or an offset,
  \<open>([0-9]{4})-(0[1-9]|1[0-2])-(0[1-9]|[12][0-9]|3[01])\<close>
  \<open>(?:[T ]\<close>time\<open>(?:Z|[+-]([01][0-9]|2[0-3]):([0-5][0-9]))?)?\<close>: the length of the
  match and its nine groups.
\<close>

definition match_datetime :: "ustr \<Rightarrow> (nat \<times> ustr option list) option" where
  "match_datetime s =
     (case take_digits 4 s of
        None \<Rightarrow> None
      | Some y \<Rightarrow>
     if char_at s 4 \<noteq> Some (ord CHR ''-'') then None else
     case two_digits 1 12 (drop 5 s) of
        None \<Rightarrow> None
      | Some mo \<Rightarrow>
     if char_at s 7 \<noteq> Some (ord CHR ''-'') then None else
     case two_digits 1 31 (drop 8 s) of
        None \<Rightarrow> None
      | Some d \<Rightarrow>
          let ymd = [Some y, Some mo, Some d];
              date_only = Some (10, ymd @ replicate 6 None)
          in
          if char_at s 10 \<notin> {Some (ord CHR ''T''), Some (ord CHR '' '')} then date_only
          else
            case match_time (drop 11 s) of
              None \<Rightarrow> date_only
            | Some (n, hms) \<Rightarrow>
                let e = 11 + n in
                if char_at s e = Some (ord CHR ''Z'') then Some (e + 1, ymd @ hms @ [None, None])
                else if char_at s e \<in> {Some (ord CHR ''+''), Some (ord CHR ''-'')}
                        \<and> two_digits 0 23 (drop (e + 1) s) \<noteq> None
                        \<and> char_at s (e + 3) = Some (ord CHR '':'')
                        \<and> two_digits 0 59 (drop (e + 4) s) \<noteq> None
                then Some (e + 6, ymd @ hms @
                             [two_digits 0 23 (drop (e + 1) s), two_digits 0 59 (drop (e + 4) s)])
                else Some (e, ymd @ hms @ [None, None]))"

text \<open>Modelled from the spec: a pattern with groups, from its length and groups.\<close>

definition pattern_with_groups :: "(ustr \<Rightarrow> (nat \<times> ustr option list) option) \<Rightarrow> pattern" where
  "pattern_with_groups f src pos =
     (case f (drop pos src) of
        None \<Rightarrow> None
      | Some (n, gs) \<Rightarrow> Some \<lparr>m_end = pos + n, m_groups = gs\<rparr>)"

text \<open>Modelled from the spec: the six patterns the parser imports.\<close>

definition toml_re :: patterns where
  "toml_re =
     \<lparr>RE_BIN = pattern_of (us_digits (is_digit_of 2)),
      RE_DATETIME = pattern_with_groups match_datetime,
      RE_DEC_OR_FLOAT = pattern_of match_dec_or_float,
      RE_HEX = pattern_of (us_digits (is_digit_of 16)),
      RE_LOCAL_TIME = pattern_with_groups match_time,
      RE_OCT = pattern_of (us_digits (is_digit_of 8))\<rparr>"

text \<open>
  A float parser for the examples: it keeps the text of the literal, as a parser for
  arbitrary-precision decimals would.
\<close>

definition keep_text :: "ustr ParseFloat" where
  "keep_text s = Inr s"

section \<open>Results of the sequencing operators\<close>

lemma and_then_eq_Inr: "and_then m f = Inr y \<longleftrightarrow> (\<exists>x. m = Inr x \<and> f x = Inr y)"
  by (cases m) auto

lemma and_then_eq_Inl:
  "and_then m f = Inl e \<longleftrightarrow> m = Inl e \<or> (\<exists>x. m = Inr x \<and> f x = Inl e)"
  by (cases m) auto

lemma run_then_eq_Some_Inr:
  "run_then m f = Some (Inr y) \<longleftrightarrow> (\<exists>x. m = Some (Inr x) \<and> f x = Some (Inr y))"
proof (cases m)
  case None
  then show ?thesis by simp
next
  case (Some r)
  then show ?thesis by (cases r) auto
qed

section \<open>Every \<open>suffixed_err\<close> is a \<open>TOMLDecodeError\<close>\<close>

lemma rindex_finds: "i < hi \<Longrightarrow> i < length src \<Longrightarrow> src ! i = c \<Longrightarrow> rindex src c hi \<noteq> None"
proof (induction hi)
  case 0
  then show ?case by simp
next
  case (Suc hi)
  then show ?case by (cases "i = hi") auto
qed

lemma coord_repr_returns: "\<exists>c. coord_repr src pos = Inr c"
proof (cases "pos \<ge> length src \<or> count_char src 10 0 pos = 0")
  case True
  then show ?thesis by (auto simp: coord_repr_def)
next
  case False
  then have "filter (\<lambda>x. x = 10) (take pos src) \<noteq> []" and pos: "pos < length src"
    by (auto simp: count_char_def slice_def)
  then obtain x where "x \<in> set (take pos src)" and "x = 10"
    by (metis (mono_tags, lifting) filter_False)
  then obtain i where "i < pos" "i < length src" "src ! i = 10"
    using pos by (auto simp: in_set_conv_nth)
  then have "rindex src 10 pos \<noteq> None" by (rule rindex_finds)
  with pos show ?thesis by (auto simp: coord_repr_def Let_def)
qed

lemma suffixed_err_is_TOMLDecodeError: "\<exists>c. suffixed_err src pos msg = TOMLDecodeError msg c"
  using coord_repr_returns [of src pos] by (auto simp: suffixed_err_def)

section \<open>Tables along a key\<close>

text \<open>
  \<open>nest_at\<close> is the lookup that \<open>get_or_create_nest\<close> performs when nothing has to be
  created: it follows the key through tables and, with \<open>access_lists\<close>, through the
  last element of a list. Where it finds a table, \<open>get_or_create_nest\<close> returns that
  table and leaves the tree as it is.
\<close>

fun nest_at :: "'f dict \<Rightarrow> Key \<Rightarrow> bool \<Rightarrow> 'f dict option" where
  "nest_at cont [] access_lists = Some cont"
| "nest_at cont (k # ks) access_lists =
     (case map_of cont k of
        Some (VDict d) \<Rightarrow> nest_at d ks access_lists
      | Some (VList xs) \<Rightarrow>
          if access_lists \<and> xs \<noteq> [] then
            (case last xs of VDict d \<Rightarrow> nest_at d ks access_lists | _ \<Rightarrow> None)
          else None
      | _ \<Rightarrow> None)"

lemma nest_at_get_or_create_nest:
  "nest_at cont Q al = Some nest \<Longrightarrow> get_or_create_nest cont Q al = Inr (cont, nest)"
proof (induction cont Q al rule: nest_at.induct)
  case (1 cont al)
  then show ?case by simp
next
  case (2 cont k ks al)
  have "butlast xs @ [VDict d] = xs" if "xs \<noteq> []" "last xs = VDict d" for xs and d :: "'a dict"
    using that append_butlast_last_id [of xs] by simp
  with 2 show ?case
    by (auto simp: update_triv split: option.splits val.splits if_splits)
qed

lemma get_or_create_nest_nest_at:
  "get_or_create_nest cont Q al = Inr (cont', nest) \<Longrightarrow> nest_at cont' Q al = Some nest"
proof (induction cont Q al arbitrary: cont' nest rule: get_or_create_nest.induct)
  case (1 cont al)
  then show ?case by auto
next
  case (2 cont k ks al)
  then show ?case
    by (auto simp: Let_def update_conv' and_then_eq_Inr split: option.splits val.splits if_splits)
qed

lemma nest_at_put_nest:
  "nest_at cont Q al = Some nest \<Longrightarrow> nest_at (put_nest cont Q al new) Q al = Some new"
proof (induction cont Q al arbitrary: nest rule: nest_at.induct)
  case (1 cont al)
  then show ?case by simp
next
  case (2 cont k ks al)
  then show ?case
    by (auto simp: update_conv' split: option.splits val.splits if_splits)
qed


section \<open>When the statement rules return\<close>

lemma key_value_rule_Inr:
  assumes kv: "parse_key_value_pair m re pf src pos = Some (Inr (p, key, v))"
  shows "key_value_rule m re pf src pos st = Some (Inr (p', st')) \<longleftrightarrow>
    key \<noteq> [] \<and> p' = p
    \<and> \<not> is_flag (flags_of st) (header_namespace st @ butlast key) FROZEN
    \<and> (\<exists>o1 nest flags2.
          get_or_create_nest (out st) (header_namespace st @ butlast key) True = Inr (o1, nest)
        \<and> map_of nest (last key) = None
        \<and> (if is_container v
            then set_flag (set_for_relative_key (flags_of st) (header_namespace st) key
                   EXPLICIT_NEST) (header_namespace st @ key) FROZEN True
            else Inr (set_for_relative_key (flags_of st) (header_namespace st) key
                   EXPLICIT_NEST)) = Inr flags2
        \<and> st' = st\<lparr>out := put_nest o1 (header_namespace st @ butlast key) True
                              (AList.update (last key) v nest),
                     flags_of := flags2\<rparr>)"
proof (cases "key = [] \<or> is_flag (flags_of st) (header_namespace st @ butlast key) FROZEN")
  case True
  then show ?thesis unfolding key_value_rule_def kv by (auto simp: Let_def)
next
  case False
  show ?thesis
  proof (cases "get_or_create_nest (out st) (header_namespace st @ butlast key) True")
    case (Inl e)
    with False show ?thesis unfolding key_value_rule_def kv
      by (cases e) (simp_all add: Let_def)
  next
    case (Inr r)
    obtain o1 nest where r: "r = (o1, nest)" by (cases r)
    show ?thesis
    proof (cases "map_of nest (last key) = None")
      case nn: False
      with False Inr r show ?thesis unfolding key_value_rule_def kv
        by (simp add: Let_def)
    next
      case nn: True
      with False Inr r show ?thesis unfolding key_value_rule_def kv
        by (simp add: Let_def and_then_eq_Inr) blast
    qed
  qed
qed

lemma create_dict_rule_Inr:
  assumes pk: "parse_key src (skip_chars src (pos + 1) TOML_WS) = Inr (p, key)"
  shows "create_dict_rule src pos st = Inr (p', st') \<longleftrightarrow>
    \<not> is_flag (flags_of st) key EXPLICIT_NEST \<and> \<not> is_flag (flags_of st) key FROZEN
    \<and> (\<exists>flags1 o1 nest.
          set_flag (flags_of st) key EXPLICIT_NEST False = Inr flags1
        \<and> get_or_create_nest (out st) key True = Inr (o1, nest)
        \<and> slice src p (p + 1) = str '']'' \<and> p' = p + 1
        \<and> st' = st\<lparr>out := o1, flags_of := flags1, header_namespace := key\<rparr>)"
proof (cases "is_flag (flags_of st) key EXPLICIT_NEST \<or> is_flag (flags_of st) key FROZEN")
  case True
  then show ?thesis unfolding create_dict_rule_def pk by auto
next
  case False
  show ?thesis
  proof (cases "set_flag (flags_of st) key EXPLICIT_NEST False")
    case (Inl e)
    with False show ?thesis unfolding create_dict_rule_def pk by simp
  next
    case f: (Inr flags1)
    show ?thesis
    proof (cases "get_or_create_nest (out st) key True")
      case (Inl e)
      with False f show ?thesis unfolding create_dict_rule_def pk
        by (cases e) simp_all
    next
      case (Inr r)
      obtain o1 nest where r: "r = (o1, nest)" by (cases r)
      from False f Inr r show ?thesis unfolding create_dict_rule_def pk
        by (cases "slice src p (p + 1) = str '']''") auto
    qed
  qed
qed

lemma create_dict_rule_parses:
  "create_dict_rule src pos st = Inr (p', st') \<Longrightarrow>
    \<exists>p. parse_key src (skip_chars src (pos + 1) TOML_WS) = Inr (p, header_namespace st')"
proof -
  assume ok: "create_dict_rule src pos st = Inr (p', st')"
  then obtain x where x: "parse_key src (skip_chars src (pos + 1) TOML_WS) = Inr x"
    unfolding create_dict_rule_def and_then_eq_Inr by blast
  obtain p key where "x = (p, key)" by (cases x)
  with x have pk: "parse_key src (skip_chars src (pos + 1) TOML_WS) = Inr (p, key)" by simp
  from ok [unfolded create_dict_rule_Inr [OF pk]] have "header_namespace st' = key" by auto
  with pk show ?thesis by blast
qed

lemma create_list_rule_Inr:
  assumes pk: "parse_key src (skip_chars src (pos + 2) TOML_WS) = Inr (p, key)"
  shows "create_list_rule src pos st = Inr (p', st') \<longleftrightarrow>
    \<not> is_flag (flags_of st) key FROZEN
    \<and> (\<exists>flags1 flags2 o1.
          unset_all (flags_of st) key = Inr flags1
        \<and> set_flag flags1 key EXPLICIT_NEST False = Inr flags2
        \<and> append_nest_to_list (out st) key = Inr o1
        \<and> slice src p (p + 2) = str '']]'' \<and> p' = p + 2
        \<and> st' = st\<lparr>out := o1, flags_of := flags2, header_namespace := key\<rparr>)"
proof (cases "is_flag (flags_of st) key FROZEN")
  case True
  then show ?thesis unfolding create_list_rule_def pk by auto
next
  case False
  show ?thesis
  proof (cases "unset_all (flags_of st) key")
    case (Inl e)
    with False show ?thesis unfolding create_list_rule_def pk by simp
  next
    case u: (Inr flags1)
    show ?thesis
    proof (cases "set_flag flags1 key EXPLICIT_NEST False")
      case (Inl e)
      with False u show ?thesis unfolding create_list_rule_def pk by simp
    next
      case f: (Inr flags2)
      show ?thesis
      proof (cases "append_nest_to_list (out st) key")
        case (Inl e)
        with False u f show ?thesis unfolding create_list_rule_def pk
          by (cases e) simp_all
      next
        case (Inr o1)
        with False u f show ?thesis unfolding create_list_rule_def pk
          by (cases "slice src p (p + 2) = str '']]''") (auto simp: Let_def)
      qed
    qed
  qed
qed

lemma create_list_rule_parses:
  "create_list_rule src pos st = Inr (p', st') \<Longrightarrow>
    \<exists>p. parse_key src (skip_chars src (pos + 2) TOML_WS) = Inr (p, header_namespace st')"
proof -
  assume ok: "create_list_rule src pos st = Inr (p', st')"
  then obtain x where x: "parse_key src (skip_chars src (pos + 2) TOML_WS) = Inr x"
    unfolding create_list_rule_def and_then_eq_Inr by blast
  obtain p key where "x = (p, key)" by (cases x)
  with x have pk: "parse_key src (skip_chars src (pos + 2) TOML_WS) = Inr (p, key)" by simp
  from ok [unfolded create_list_rule_Inr [OF pk]] have "header_namespace st' = key" by auto
  with pk show ?thesis by blast
qed

section \<open>Table headers\<close>

text \<open>The node of the flag tree that a key leads to.\<close>

fun flag_node_at :: "flag_dict \<Rightarrow> Key \<Rightarrow> flag_node option" where
  "flag_node_at cont [] = None"
| "flag_node_at cont [k] = map_of cont k"
| "flag_node_at cont (k # k' # ks) =
     (case map_of cont k of None \<Rightarrow> None | Some n \<Rightarrow> flag_node_at (nested n) (k' # ks))"

lemma flag_node_at_empty [simp]: "flag_node_at [] K = None"
  by (cases "([] :: flag_dict, K)" rule: flag_node_at.cases) auto

lemma is_flag_empty [simp]: "\<not> is_flag [] K f"
  by (cases "([] :: flag_dict, K, f)" rule: is_flag.cases) auto

lemma set_flag_returns: "K \<noteq> [] \<Longrightarrow> \<exists>c. set_flag cont K f r = Inr c"
proof (induction cont K f r rule: set_flag.induct)
  case (1 cont flag recursive)
  then show ?case by simp
next
  case (2 cont key_stem flag recursive)
  then show ?case by (simp add: Let_def)
next
  case (3 cont k k' ks flag recursive)
  then show ?case by (auto simp: Let_def)
qed

lemma unset_all_returns: "K \<noteq> [] \<Longrightarrow> \<exists>c. unset_all cont K = Inr c"
proof (induction cont K rule: unset_all.induct)
  case (1 cont)
  then show ?case by simp
next
  case (2 cont k)
  then show ?case by simp
next
  case (3 cont k k' ks)
  then show ?case by (auto split: option.splits)
qed

lemma unset_all_clears: "unset_all cont K = Inr c' \<Longrightarrow> flag_node_at c' K = None"
proof (induction cont K arbitrary: c' rule: unset_all.induct)
  case (1 cont)
  then show ?case by simp
next
  case (2 cont k)
  then show ?case by (auto simp: delete_conv')
next
  case (3 cont k k' ks)
  then show ?case by (auto simp: update_conv' and_then_eq_Inr split: option.splits)
qed

lemma set_flag_on_cleared:
  "flag_node_at cont K = None \<Longrightarrow> set_flag cont K f False = Inr c'
    \<Longrightarrow> flag_node_at c' K = Some (Flag_node {f} {} [])"
proof (induction cont K f False arbitrary: c' rule: set_flag.induct)
  case (1 cont flag)
  then show ?case by simp
next
  case (2 cont k flag)
  then show ?case by (auto simp: Let_def update_conv' empty_node_def)
next
  case (3 cont k k' ks flag)
  then show ?case
    by (auto simp: Let_def update_conv' empty_node_def and_then_eq_Inr split: option.splits)
qed

lemma set_flag_sets: "set_flag cont K f False = Inr c' \<Longrightarrow> is_flag c' K f"
proof (induction cont K f False arbitrary: c' rule: set_flag.induct)
  case (1 cont flag)
  then show ?case by simp
next
  case (2 cont k flag)
  then show ?case by (auto simp: Let_def update_conv')
next
  case (3 cont k k' ks flag)
  then show ?case by (auto simp: Let_def update_conv' and_then_eq_Inr)
qed

lemma unset_all_adds_no_flag:
  "unset_all cont P = Inr c' \<Longrightarrow> is_flag c' K f \<Longrightarrow> is_flag cont K f"
proof (induction cont P arbitrary: c' K rule: unset_all.induct)
  case (1 cont)
  then show ?case by simp
next
  case (2 cont k)
  then show ?case
    by (cases "(cont, K, f)" rule: is_flag.cases)
      (auto simp: delete_conv' split: option.splits if_splits)
next
  case (3 cont k k' ks)
  show ?case
  proof (cases "map_of cont k")
    case None
    with "3.prems" show ?thesis by simp
  next
    case (Some n)
    with "3.prems"(1) obtain m where m: "unset_all (nested n) (k' # ks) = Inr m"
      and c': "c' = AList.update k (Flag_node (flags n) (recursive_flags n) m) cont"
      by (auto simp: and_then_eq_Inr)
    note IH = "3.IH" [OF Some m]
    show ?thesis
    proof (cases "(cont, K, f)" rule: is_flag.cases)
      case (1 c fl)
      with "3.prems" show ?thesis by simp
    next
      case (2 c j fl)
      with "3.prems"(2) c' Some show ?thesis
        by (auto simp: update_conv' split: option.splits if_splits)
    next
      case (3 c j j' js fl)
      show ?thesis
      proof (cases "j = k")
        case False
        with 3 "3.prems"(2) c' show ?thesis
          by (auto simp: update_conv' split: option.splits if_splits)
      next
        case True
        with 3 "3.prems"(2) c' Some IH [of "j' # js"] show ?thesis
          by (auto simp: update_conv' split: option.splits if_splits)
      qed
    qed
  qed
qed

lemma set_flag_adds_no_other_flag:
  "set_flag cont P g r = Inr c' \<Longrightarrow> f \<noteq> g \<Longrightarrow> is_flag c' K f \<Longrightarrow> is_flag cont K f"
proof (induction cont P g r arbitrary: c' K rule: set_flag.induct)
  case (1 cont flag recursive)
  then show ?case by simp
next
  case (2 cont k flag recursive)
  then show ?case
    by (cases "(cont, K, f)" rule: is_flag.cases)
      (auto simp: Let_def update_conv' empty_node_def split: option.splits if_splits)
next
  case (3 cont k k' ks flag recursive)
  define n where "n = (case map_of cont k of Some n \<Rightarrow> n | None \<Rightarrow> empty_node)"
  from "3.prems"(1) obtain m where m: "set_flag (nested n) (k' # ks) flag recursive = Inr m"
    and c': "c' = AList.update k (Flag_node (flags n) (recursive_flags n) m) cont"
    by (auto simp: Let_def n_def and_then_eq_Inr)
  note IH = "3.IH" [OF n_def m "3.prems"(2)]
  show ?case
  proof (cases "(cont, K, f)" rule: is_flag.cases)
    case (1 c fl)
    with "3.prems" show ?thesis by simp
  next
    case (2 c j fl)
    with "3.prems"(3) c' show ?thesis
      by (auto simp: update_conv' n_def empty_node_def split: option.splits if_splits)
  next
    case (3 c j j' js fl)
    show ?thesis
    proof (cases "j = k")
      case False
      with 3 "3.prems"(3) c' show ?thesis
        by (auto simp: update_conv' split: option.splits if_splits)
    next
      case True
      with 3 "3.prems"(3) c' IH [of "j' # js"] show ?thesis
        by (auto simp: update_conv' n_def empty_node_def split: option.splits if_splits)
    qed
  qed
qed

lemma append_nest_to_list_again:
  assumes "append_nest_to_list root K = Inr root'"
  shows "\<exists>root''. append_nest_to_list root' K = Inr root''"
proof -
  from assms obtain r1 cont where g: "get_or_create_nest root (butlast K) True = Inr (r1, cont)"
    and ne: "K \<noteq> []"
    by (auto simp: append_nest_to_list_def and_then_eq_Inr split: if_splits)
  from assms g ne obtain l where
    r': "root' = put_nest r1 (butlast K) True (AList.update (last K) (VList l) cont)"
    by (auto simp: append_nest_to_list_def Let_def split: option.splits val.splits)
  from get_or_create_nest_nest_at [OF g] have "nest_at r1 (butlast K) True = Some cont" .
  from nest_at_put_nest [OF this] r'
  have "nest_at root' (butlast K) True = Some (AList.update (last K) (VList l) cont)" by simp
  from nest_at_get_or_create_nest [OF this] ne show ?thesis
    by (simp add: append_nest_to_list_def update_conv')
qed

lemma append_nest_to_list_top_level:
  "append_nest_to_list root [k] = Inr root' \<Longrightarrow>
    root' = AList.update k
      (VList ((case map_of root k of Some (VList xs) \<Rightarrow> xs | _ \<Rightarrow> []) @ [VDict []])) root"
  by (auto simp: append_nest_to_list_def Let_def split: option.splits val.splits)

lemma create_dict_rule_flagged:
  assumes pk: "parse_key src (skip_chars src (pos + 1) TOML_WS) = Inr (p, key)"
    and fl: "is_flag (flags_of st) key EXPLICIT_NEST \<or> is_flag (flags_of st) key FROZEN"
  shows "\<exists>c. create_dict_rule src pos st = Inl (TOMLDecodeError (Can_not_declare_twice key) c)"
proof -
  from suffixed_err_is_TOMLDecodeError [of src p "Can_not_declare_twice key"] obtain c where
    "suffixed_err src p (Can_not_declare_twice key) = TOMLDecodeError (Can_not_declare_twice key) c"
    by blast
  with fl show ?thesis unfolding create_dict_rule_def pk by auto
qed

lemma create_dict_rule_sets_EXPLICIT_NEST:
  assumes ok: "create_dict_rule src pos st = Inr (p', st')"
  shows "is_flag (flags_of st') (header_namespace st') EXPLICIT_NEST"
proof -
  from ok obtain x where "parse_key src (skip_chars src (pos + 1) TOML_WS) = Inr x"
    unfolding create_dict_rule_def and_then_eq_Inr by blast
  then obtain p key where
    pk: "parse_key src (skip_chars src (pos + 1) TOML_WS) = Inr (p, key)"
    by (cases x) simp
  from ok [unfolded create_dict_rule_Inr [OF pk]] obtain flags1 o1 nest where
    s: "set_flag (flags_of st) key EXPLICIT_NEST False = Inr flags1"
    and st': "st' = st\<lparr>out := o1, flags_of := flags1, header_namespace := key\<rparr>"
    by blast
  from set_flag_sets [OF s] st' show ?thesis by simp
qed

lemma create_list_rule_outcome:
  assumes ok: "create_list_rule src pos st = Inr (p', st')"
  obtains flags1 where "\<not> is_flag (flags_of st) (header_namespace st') FROZEN"
    and "unset_all (flags_of st) (header_namespace st') = Inr flags1"
    and "set_flag flags1 (header_namespace st') EXPLICIT_NEST False = Inr (flags_of st')"
    and "append_nest_to_list (out st) (header_namespace st') = Inr (out st')"
proof -
  from ok obtain x where "parse_key src (skip_chars src (pos + 2) TOML_WS) = Inr x"
    unfolding create_list_rule_def and_then_eq_Inr by blast
  then obtain p key where
    pk: "parse_key src (skip_chars src (pos + 2) TOML_WS) = Inr (p, key)"
    by (cases x) simp
  from ok [unfolded create_list_rule_Inr [OF pk]] obtain flags1 flags2 o1 where
    nf: "\<not> is_flag (flags_of st) key FROZEN"
    and u: "unset_all (flags_of st) key = Inr flags1"
    and s: "set_flag flags1 key EXPLICIT_NEST False = Inr flags2"
    and a: "append_nest_to_list (out st) key = Inr o1"
    and st': "st' = st\<lparr>out := o1, flags_of := flags2, header_namespace := key\<rparr>"
    by blast
  from st' have "header_namespace st' = key" "flags_of st' = flags2" "out st' = o1"
    by simp_all
  with nf u s a that show thesis by simp
qed

lemma create_list_rule_resets_flags:
  assumes ok: "create_list_rule src pos st = Inr (p', st')"
  shows "flag_node_at (flags_of st') (header_namespace st') = Some (Flag_node {EXPLICIT_NEST} {} [])"
proof -
  from ok obtain flags1 where
    u: "unset_all (flags_of st) (header_namespace st') = Inr flags1"
    and s: "set_flag flags1 (header_namespace st') EXPLICIT_NEST False = Inr (flags_of st')"
    by (rule create_list_rule_outcome)
  from set_flag_on_cleared [OF unset_all_clears [OF u] s] show ?thesis .
qed

lemma create_list_rule_appends:
  assumes ok: "create_list_rule src pos st = Inr (p', st')"
    and hn: "header_namespace st' = [k]"
  shows "out st' = AList.update k
      (VList ((case map_of (out st) k of Some (VList xs) \<Rightarrow> xs | _ \<Rightarrow> []) @ [VDict []]))
      (out st)"
proof -
  from ok obtain flags1 where
    "append_nest_to_list (out st) (header_namespace st') = Inr (out st')"
    by (rule create_list_rule_outcome)
  with hn have "append_nest_to_list (out st) [k] = Inr (out st')" by simp
  then show ?thesis by (rule append_nest_to_list_top_level)
qed

lemma create_list_rule_again:
  assumes ok: "create_list_rule src pos st = Inr (p', st')"
    and pk2: "parse_key src2 (skip_chars src2 (pos2 + 2) TOML_WS) = Inr (q, header_namespace st')"
    and em: "slice src2 q (q + 2) = str '']]''"
  shows "\<exists>st''. create_list_rule src2 pos2 st' = Inr (q + 2, st'')"
proof -
  define K where "K = header_namespace st'"
  from ok obtain flags1 where
    nf: "\<not> is_flag (flags_of st) K FROZEN"
    and u: "unset_all (flags_of st) K = Inr flags1"
    and s: "set_flag flags1 K EXPLICIT_NEST False = Inr (flags_of st')"
    and a: "append_nest_to_list (out st) K = Inr (out st')"
    unfolding K_def by (rule create_list_rule_outcome)
  from u have ne: "K \<noteq> []" by auto
  have nf2: "\<not> is_flag (flags_of st') K FROZEN"
    using nf set_flag_adds_no_other_flag [OF s, of FROZEN K]
      unset_all_adds_no_flag [OF u, of K FROZEN]
    by auto
  from unset_all_returns [OF ne] obtain g1 where g1: "unset_all (flags_of st') K = Inr g1"
    by blast
  from set_flag_returns [OF ne] obtain g2 where g2: "set_flag g1 K EXPLICIT_NEST False = Inr g2"
    by blast
  from append_nest_to_list_again [OF a] obtain o2 where
    o2: "append_nest_to_list (out st') K = Inr o2"
    by blast
  show ?thesis
    unfolding create_list_rule_Inr [OF pk2 [folded K_def]]
    using nf2 g1 g2 o2 em by auto
qed

text \<open>
  C3. A table header for a key that already carries \<open>EXPLICIT_NEST\<close> or \<open>FROZEN\<close>
  is an error, and a table header that succeeds sets \<open>EXPLICIT_NEST\<close> for its key
  (so the same header once more is that error). An array-of-tables header that
  succeeds leaves exactly \<open>EXPLICIT_NEST\<close> at its key: no other flag, no recursive
  flag, nothing nested (\<open>unset_all\<close> removed what was there). For a one-part key it
  has appended an empty table to the list that was at the key (or made the list).
  And the same array header in the resulting state succeeds again. With any tokenizer
  and float parser and any fuel from two units on, \<open>[a]\<close>, newline, \<open>[a]\<close> raises
  "Can not declare ('a',) twice" at line 2, column 3, and \<open>[[a]]\<close>, newline, \<open>[[a]]\<close>
  returns the table that maps \<open>a\<close> to a list of two empty tables.
\<close>

theorem table_header_twice_fails_array_header_twice_appends:
  fixes parse_float :: "'f::equal ParseFloat" and st st' :: "'g State"
  shows
    "(parse_key src (skip_chars src (pos + 1) TOML_WS) = Inr (p, key)
        \<and> (is_flag (flags_of st) key EXPLICIT_NEST \<or> is_flag (flags_of st) key FROZEN)
      \<longrightarrow> (\<exists>c. create_dict_rule src pos st
                  = Inl (TOMLDecodeError (Can_not_declare_twice key) c)))
    \<and> (create_dict_rule src pos st = Inr (p', st')
      \<longrightarrow> is_flag (flags_of st') (header_namespace st') EXPLICIT_NEST)
    \<and> (create_list_rule src pos st = Inr (p', st')
      \<longrightarrow> flag_node_at (flags_of st') (header_namespace st')
            = Some (Flag_node {EXPLICIT_NEST} {} [])
        \<and> (header_namespace st' = [k]
          \<longrightarrow> out st' = AList.update k
                (VList ((case map_of (out st) k of Some (VList xs) \<Rightarrow> xs | _ \<Rightarrow> [])
                        @ [VDict []])) (out st))
        \<and> (parse_key src2 (skip_chars src2 (pos2 + 2) TOML_WS) = Inr (q, header_namespace st')
            \<and> slice src2 q (q + 2) = str '']]''
          \<longrightarrow> (\<exists>st''. create_list_rule src2 pos2 st' = Inr (q + 2, st''))))
    \<and> loads (Suc (Suc n)) re parse_float (str ''[a]\<newline>[a]'') =
        Some (Inl (TOMLDecodeError (Can_not_declare_twice [str ''a'']) (Line_column 2 3)))
    \<and> loads (Suc (Suc n)) re parse_float (str ''[[a]]\<newline>[[a]]'') =
        Some (Inr [(str ''a'', VList [VDict [], VDict []])])"
proof (intro conjI impI)
  show "loads (Suc (Suc n)) re parse_float (str ''[a]\<newline>[a]'') =
      Some (Inl (TOMLDecodeError (Can_not_declare_twice [str ''a'']) (Line_column 2 3)))"
    by code_simp
  show "loads (Suc (Suc n)) re parse_float (str ''[[a]]\<newline>[[a]]'') =
      Some (Inr [(str ''a'', VList [VDict [], VDict []])])"
    by code_simp
  show "\<exists>c. create_dict_rule src pos st = Inl (TOMLDecodeError (Can_not_declare_twice key) c)"
    if "parse_key src (skip_chars src (pos + 1) TOML_WS) = Inr (p, key)
        \<and> (is_flag (flags_of st) key EXPLICIT_NEST \<or> is_flag (flags_of st) key FROZEN)"
    using that by (elim conjE) (rule create_dict_rule_flagged)
  show "is_flag (flags_of st') (header_namespace st') EXPLICIT_NEST"
    if "create_dict_rule src pos st = Inr (p', st')"
    using that by (rule create_dict_rule_sets_EXPLICIT_NEST)
  show "flag_node_at (flags_of st') (header_namespace st')
      = Some (Flag_node {EXPLICIT_NEST} {} [])"
    if "create_list_rule src pos st = Inr (p', st')"
    using that by (rule create_list_rule_resets_flags)
  show "out st' = AList.update k
      (VList ((case map_of (out st) k of Some (VList xs) \<Rightarrow> xs | _ \<Rightarrow> []) @ [VDict []]))
      (out st)"
    if "create_list_rule src pos st = Inr (p', st')" "header_namespace st' = [k]"
    using that by (rule create_list_rule_appends)
  show "\<exists>st''. create_list_rule src2 pos2 st' = Inr (q + 2, st'')"
    if "create_list_rule src pos st = Inr (p', st')"
      "parse_key src2 (skip_chars src2 (pos2 + 2) TOML_WS) = Inr (q, header_namespace st')
        \<and> slice src2 q (q + 2) = str '']]''"
    using that by (elim conjE) (rule create_list_rule_again)
qed

lemma header_examples:
  "parse_key (str ''[a.b]'') (skip_chars (str ''[a.b]'') (0 + 1) TOML_WS)
      = Inr (4, [str ''a'', str ''b''])"
  "create_dict_rule (str ''[a.b]'') 0
      \<lparr>out = [], flags_of = [], header_namespace = []\<rparr>
    = Inr (5, \<lparr>out = [(str ''a'', VDict [(str ''b'', VDict [])])],
               flags_of = [(str ''a'', Flag_node {} {}
                             [(str ''b'', Flag_node {EXPLICIT_NEST} {} [])])],
               header_namespace = [str ''a'', str ''b'']\<rparr> :: unit State)"
  "create_list_rule (str ''[[a]]'') 0
      \<lparr>out = [(str ''a'', VList [VDict [(str ''b'', VDict [])]])],
       flags_of = [(str ''a'', Flag_node {EXPLICIT_NEST} {}
                     [(str ''b'', Flag_node {EXPLICIT_NEST} {} [])])],
       header_namespace = [str ''a'', str ''b'']\<rparr>
    = Inr (5, \<lparr>out = [(str ''a'', VList [VDict [(str ''b'', VDict [])], VDict []])],
               flags_of = [(str ''a'', Flag_node {EXPLICIT_NEST} {} [])],
               header_namespace = [str ''a'']\<rparr> :: unit State)"
  "parse_key (str ''[[a]]'') (skip_chars (str ''[[a]]'') (0 + 2) TOML_WS) = Inr (3, [str ''a''])"
  "slice (str ''[[a]]'') 3 (3 + 2) = str '']]''"
  by code_simp+

theorem table_header_twice_fails_array_header_twice_appends_witness:
  "(\<exists>c. create_dict_rule (str ''[a.b]'') 0
           (\<lparr>out = [(str ''a'', VDict [(str ''b'', VDict [])])],
             flags_of = [(str ''a'', Flag_node {} {}
                           [(str ''b'', Flag_node {EXPLICIT_NEST} {} [])])],
             header_namespace = [str ''a'', str ''b'']\<rparr> :: unit State)
         = Inl (TOMLDecodeError (Can_not_declare_twice [str ''a'', str ''b'']) c))
   \<and> is_flag [(str ''a'', Flag_node {} {} [(str ''b'', Flag_node {EXPLICIT_NEST} {} [])])]
         [str ''a'', str ''b''] EXPLICIT_NEST
   \<and> flag_node_at [(str ''a'', Flag_node {EXPLICIT_NEST} {} [])] [str ''a'']
       = Some (Flag_node {EXPLICIT_NEST} {} [])
   \<and> (\<exists>st''. create_list_rule (str ''[[a]]'') 0
           (\<lparr>out = [(str ''a'', VList [VDict [(str ''b'', VDict [])], VDict []])],
             flags_of = [(str ''a'', Flag_node {EXPLICIT_NEST} {} [])],
             header_namespace = [str ''a'']\<rparr> :: unit State)
         = Inr (3 + 2, st''))"
proof (intro conjI)
  show "\<exists>c. create_dict_rule (str ''[a.b]'') 0
           (\<lparr>out = [(str ''a'', VDict [(str ''b'', VDict [])])],
             flags_of = [(str ''a'', Flag_node {} {}
                           [(str ''b'', Flag_node {EXPLICIT_NEST} {} [])])],
             header_namespace = [str ''a'', str ''b'']\<rparr> :: unit State)
         = Inl (TOMLDecodeError (Can_not_declare_twice [str ''a'', str ''b'']) c)"
    using table_header_twice_fails_array_header_twice_appends
      [where src = "str ''[a.b]''" and pos = 0 and p = 4 and key = "[str ''a'', str ''b'']"
        and st = "\<lparr>out = [(str ''a'', VDict [(str ''b'', VDict [])])],
             flags_of = [(str ''a'', Flag_node {} {}
                           [(str ''b'', Flag_node {EXPLICIT_NEST} {} [])])],
             header_namespace = [str ''a'', str ''b'']\<rparr> :: unit State",
        THEN conjunct1]
      header_examples(1)
    by (simp add: str_def)
  show "is_flag [(str ''a'', Flag_node {} {} [(str ''b'', Flag_node {EXPLICIT_NEST} {} [])])]
         [str ''a'', str ''b''] EXPLICIT_NEST"
    using table_header_twice_fails_array_header_twice_appends
      [where src = "str ''[a.b]''" and pos = 0
        and st = "\<lparr>out = [], flags_of = [], header_namespace = []\<rparr> :: unit State"
        and p' = 5
        and st' = "\<lparr>out = [(str ''a'', VDict [(str ''b'', VDict [])])],
             flags_of = [(str ''a'', Flag_node {} {}
                           [(str ''b'', Flag_node {EXPLICIT_NEST} {} [])])],
             header_namespace = [str ''a'', str ''b'']\<rparr>",
        THEN conjunct2, THEN conjunct1]
      header_examples(2)
    by simp
  note array_header =
    table_header_twice_fails_array_header_twice_appends
      [where src = "str ''[[a]]''" and pos = 0
        and st = "\<lparr>out = [(str ''a'', VList [VDict [(str ''b'', VDict [])]])],
             flags_of = [(str ''a'', Flag_node {EXPLICIT_NEST} {}
                           [(str ''b'', Flag_node {EXPLICIT_NEST} {} [])])],
             header_namespace = [str ''a'', str ''b'']\<rparr> :: unit State"
        and p' = 5
        and st' = "\<lparr>out = [(str ''a'', VList [VDict [(str ''b'', VDict [])], VDict []])],
             flags_of = [(str ''a'', Flag_node {EXPLICIT_NEST} {} [])],
             header_namespace = [str ''a'']\<rparr>"
        and k = "str ''a''" and ?src2.0 = "str ''[[a]]''" and ?pos2.0 = 0 and q = 3,
        THEN conjunct2, THEN conjunct2, THEN conjunct1]
  show "flag_node_at [(str ''a'', Flag_node {EXPLICIT_NEST} {} [])] [str ''a'']
       = Some (Flag_node {EXPLICIT_NEST} {} [])"
    using array_header header_examples(3) by simp
  show "\<exists>st''. create_list_rule (str ''[[a]]'') 0
           (\<lparr>out = [(str ''a'', VList [VDict [(str ''b'', VDict [])], VDict []])],
             flags_of = [(str ''a'', Flag_node {EXPLICIT_NEST} {} [])],
             header_namespace = [str ''a'']\<rparr> :: unit State)
         = Inr (3 + 2, st'')"
    using array_header header_examples(3,4,5) by simp
qed

section \<open>Array of tables\<close>

lemma get_or_create_nest_last_element:
  "map_of cont k = Some (VList (ys @ [VDict d])) \<Longrightarrow>
    get_or_create_nest cont (k # ks) True =
      and_then (get_or_create_nest d ks True)
        (\<lambda>(d', nest). Inr (AList.update k (VList (ys @ [VDict d'])) cont, nest))"
  by simp

lemma put_nest_last_element:
  "map_of cont k = Some (VList (ys @ [VDict d])) \<Longrightarrow>
    put_nest cont (k # ks) True new =
      AList.update k (VList (ys @ [VDict (put_nest d ks True new)])) cont"
  by simp

lemma key_value_rule_last_element:
  assumes hn: "header_namespace st = k # hs"
    and l: "map_of (out st) k = Some (VList (ys @ [VDict d]))"
    and kv: "parse_key_value_pair m re pf src pos = Some (Inr (p, key, v))"
    and ok: "key_value_rule m re pf src pos st = Some (Inr (p', st'))"
  shows "\<exists>d1 nest. get_or_create_nest d (hs @ butlast key) True = Inr (d1, nest)
    \<and> map_of nest (last key) = None
    \<and> out st' = AList.update k
        (VList (ys @ [VDict (put_nest d1 (hs @ butlast key) True
                               (AList.update (last key) v nest))])) (out st)"
proof -
  from ok [unfolded key_value_rule_Inr [OF kv]] hn obtain o1 nest where
    g: "get_or_create_nest (out st) (k # hs @ butlast key) True = Inr (o1, nest)"
    and nn: "map_of nest (last key) = None"
    and o': "out st' = put_nest o1 (k # hs @ butlast key) True (AList.update (last key) v nest)"
    by auto
  from g obtain d1 where g1: "get_or_create_nest d (hs @ butlast key) True = Inr (d1, nest)"
    and o1: "o1 = AList.update k (VList (ys @ [VDict d1])) (out st)"
    unfolding get_or_create_nest_last_element [OF l] by (auto simp: and_then_eq_Inr)
  have "map_of o1 k = Some (VList (ys @ [VDict d1]))" by (simp add: o1 update_conv')
  from put_nest_last_element [OF this] o' o1 have
    "out st' = AList.update k
        (VList (ys @ [VDict (put_nest d1 (hs @ butlast key) True
                               (AList.update (last key) v nest))])) (out st)"
    by simp
  with g1 nn show ?thesis by blast
qed

lemma key_value_rule_simple_key_last_element:
  assumes hn: "header_namespace st = [k]"
    and l: "map_of (out st) k = Some (VList (ys @ [VDict d]))"
    and kv: "parse_key_value_pair m re pf src pos = Some (Inr (p, [x], v))"
    and nf: "\<not> is_flag (flags_of st) [k] FROZEN"
    and nx: "map_of d x = None"
  shows "\<exists>st'. key_value_rule m re pf src pos st = Some (Inr (p, st'))
    \<and> out st' = AList.update k (VList (ys @ [VDict (AList.update x v d)])) (out st)"
proof -
  define flags1 where "flags1 = set_for_relative_key (flags_of st) [k] [x] EXPLICIT_NEST"
  from set_flag_returns [of "[k, x]" flags1 FROZEN True] obtain c where
    c: "set_flag flags1 [k, x] FROZEN True = Inr c"
    by blast
  define flags2 where "flags2 = (if is_container v then c else flags1)"
  define o1 where "o1 = AList.update k (VList (ys @ [VDict d])) (out st)"
  have "get_or_create_nest (out st) [k] True =
      and_then (get_or_create_nest d [] True)
        (\<lambda>(d', nest). Inr (AList.update k (VList (ys @ [VDict d'])) (out st), nest))"
    by (rule get_or_create_nest_last_element [OF l])
  then have g: "get_or_create_nest (out st) [k] True = Inr (o1, d)"
    by (simp add: o1_def)
  have m: "map_of o1 k = Some (VList (ys @ [VDict d]))" by (simp add: o1_def update_conv')
  have "put_nest o1 [k] True (AList.update x v d)
      = AList.update k (VList (ys @ [VDict (put_nest d [] True (AList.update x v d))])) o1"
    by (rule put_nest_last_element [OF m])
  also have "\<dots> = AList.update k (VList (ys @ [VDict (AList.update x v d)])) (out st)"
    by (simp add: o1_def)
  finally have pn: "put_nest o1 [k] True (AList.update x v d)
      = AList.update k (VList (ys @ [VDict (AList.update x v d)])) (out st)" .
  define st' where "st' = st\<lparr>out := put_nest o1 [k] True (AList.update x v d),
      flags_of := flags2\<rparr>"
  have "key_value_rule m re pf src pos st = Some (Inr (p, st'))"
    unfolding key_value_rule_Inr [OF kv]
    using hn nf nx g c by (auto simp: st'_def flags2_def flags1_def)
  moreover have "out st' = AList.update k (VList (ys @ [VDict (AList.update x v d)])) (out st)"
    by (simp add: st'_def pn del: put_nest.simps)
  ultimately show ?thesis by blast
qed

lemma create_dict_rule_last_element:
  assumes l: "map_of (out st) k = Some (VList (ys @ [VDict d]))"
    and ok: "create_dict_rule src pos st = Inr (p', st')"
    and hn: "header_namespace st' = k # ks"
  shows "\<exists>d1 nest. get_or_create_nest d ks True = Inr (d1, nest)
    \<and> out st' = AList.update k (VList (ys @ [VDict d1])) (out st)"
proof -
  from create_dict_rule_parses [OF ok] hn obtain p where
    pk: "parse_key src (skip_chars src (pos + 1) TOML_WS) = Inr (p, k # ks)" by auto
  from ok [unfolded create_dict_rule_Inr [OF pk]] obtain o1 nest where
    g: "get_or_create_nest (out st) (k # ks) True = Inr (o1, nest)" and o': "out st' = o1"
    by auto
  from g obtain d1 where "get_or_create_nest d ks True = Inr (d1, nest)"
    and "o1 = AList.update k (VList (ys @ [VDict d1])) (out st)"
    unfolding get_or_create_nest_last_element [OF l] by (auto simp: and_then_eq_Inr)
  with o' show ?thesis by blast
qed

lemma array_of_tables_three_elements:
  fixes parse_float :: "'f::equal ParseFloat"
  shows "loads 7 toml_re parse_float
      (str ''[[a]]\<newline>x=1\<newline>[[a]]\<newline>[[a]]\<newline>x=3'') =
    Some (Inr [(str ''a'', VList [VDict [(str ''x'', VInt 1)], VDict [],
                                  VDict [(str ''x'', VInt 3)]])])"
  by code_simp

lemma array_of_tables_three_elements_sub_table:
  fixes parse_float :: "'f::equal ParseFloat"
  shows "loads 8 toml_re parse_float
      (str ''[[a]]\<newline>[a.b]\<newline>[[a]]\<newline>[[a]]\<newline>[a.b]\<newline>x=1'') =
    Some (Inr [(str ''a'', VList [VDict [(str ''b'', VDict [])], VDict [],
                                  VDict [(str ''b'', VDict [(str ''x'', VInt 1)])]])])"
  by code_simp

lemma array_of_tables_key_values:
  fixes parse_float :: "'f::equal ParseFloat"
  shows "loads 6 toml_re parse_float (str ''[[a]]\<newline>x=1\<newline>[[a]]\<newline>x=2'') =
    Some (Inr [(str ''a'', VList [VDict [(str ''x'', VInt 1)], VDict [(str ''x'', VInt 2)]])])"
  by code_simp

lemma array_of_tables_sub_table:
  fixes parse_float :: "'f::equal ParseFloat"
  shows "loads 6 toml_re parse_float (str ''[[a]]\<newline>[[a]]\<newline>[a.b]\<newline>x=1'') =
    Some (Inr [(str ''a'', VList [VDict [], VDict [(str ''b'', VDict [(str ''x'', VInt 1)])]])])"
  by code_simp

text \<open>
  C6. What follows an array-of-tables header goes into the last element of the array.
  Where the value at \<open>k\<close> is a list that ends with the table \<open>d\<close>, whatever comes before
  it, \<open>get_or_create_nest\<close> (with \<open>access_lists\<close>) continues in \<open>d\<close> and puts the result
  back as the last element, the others untouched. So a key-value statement under a
  header namespace that starts with \<open>k\<close> changes only that last element; a plain key
  \<open>x\<close> that is new in \<open>d\<close> is always accepted (unless \<open>k\<close> is frozen) and is added
  to \<open>d\<close>; and a table header \<open>[k. ...]\<close> creates its table in \<open>d\<close>. With any float
  parser and enough fuel, the document \<open>[[a]]\<close>, \<open>x=1\<close>, \<open>[[a]]\<close>, \<open>x=2\<close> (one
  statement per line) returns \<open>a\<close> as the list of \<open>{x: 1}\<close> and \<open>{x: 2}\<close>;
  \<open>[[a]]\<close>, \<open>[[a]]\<close>, \<open>[a.b]\<close>, \<open>x=1\<close> fills the second element; and with three
  headers the third element is filled and the second stays empty.
\<close>

theorem statements_after_array_header_fill_last_element:
  fixes parse_float :: "'f::equal ParseFloat" and st st' :: "'g State" and pf :: "'g ParseFloat"
  shows
    "(map_of cont k = Some (VList (ys @ [VDict d]))
      \<longrightarrow> get_or_create_nest cont (k # ks) True =
          and_then (get_or_create_nest d ks True)
            (\<lambda>(d', nest). Inr (AList.update k (VList (ys @ [VDict d'])) cont, nest)))
    \<and> (header_namespace st = k # hs \<and> map_of (out st) k = Some (VList (ys @ [VDict d]))
        \<and> parse_key_value_pair m re pf src pos = Some (Inr (p, key, v))
        \<and> key_value_rule m re pf src pos st = Some (Inr (p', st'))
      \<longrightarrow> (\<exists>d1 nest. get_or_create_nest d (hs @ butlast key) True = Inr (d1, nest)
            \<and> map_of nest (last key) = None
            \<and> out st' = AList.update k
                (VList (ys @ [VDict (put_nest d1 (hs @ butlast key) True
                                       (AList.update (last key) v nest))])) (out st)))
    \<and> (header_namespace st = [k] \<and> map_of (out st) k = Some (VList (ys @ [VDict d]))
        \<and> parse_key_value_pair m re pf src pos = Some (Inr (p, [x], v))
        \<and> \<not> is_flag (flags_of st) [k] FROZEN \<and> map_of d x = None
      \<longrightarrow> (\<exists>st2. key_value_rule m re pf src pos st = Some (Inr (p, st2))
            \<and> out st2 = AList.update k (VList (ys @ [VDict (AList.update x v d)])) (out st)))
    \<and> (map_of (out st) k = Some (VList (ys @ [VDict d]))
        \<and> create_dict_rule src pos st = Inr (p', st') \<and> header_namespace st' = k # ks
      \<longrightarrow> (\<exists>d1 nest. get_or_create_nest d ks True = Inr (d1, nest)
            \<and> out st' = AList.update k (VList (ys @ [VDict d1])) (out st)))
    \<and> loads (n + 6) toml_re parse_float (str ''[[a]]\<newline>x=1\<newline>[[a]]\<newline>x=2'') =
        Some (Inr [(str ''a'', VList [VDict [(str ''x'', VInt 1)], VDict [(str ''x'', VInt 2)]])])
    \<and> loads (n + 6) toml_re parse_float (str ''[[a]]\<newline>[[a]]\<newline>[a.b]\<newline>x=1'') =
        Some (Inr [(str ''a'', VList [VDict [], VDict [(str ''b'', VDict [(str ''x'', VInt 1)])]])])
    \<and> loads (n + 7) toml_re parse_float
          (str ''[[a]]\<newline>x=1\<newline>[[a]]\<newline>[[a]]\<newline>x=3'') =
        Some (Inr [(str ''a'', VList [VDict [(str ''x'', VInt 1)], VDict [],
                                      VDict [(str ''x'', VInt 3)]])])
    \<and> loads (n + 8) toml_re parse_float
          (str ''[[a]]\<newline>[a.b]\<newline>[[a]]\<newline>[[a]]\<newline>[a.b]\<newline>x=1'') =
        Some (Inr [(str ''a'', VList [VDict [(str ''b'', VDict [])], VDict [],
                                      VDict [(str ''b'', VDict [(str ''x'', VInt 1)])]])])"
proof (intro conjI impI)
  show "get_or_create_nest cont (k # ks) True =
      and_then (get_or_create_nest d ks True)
        (\<lambda>(d', nest). Inr (AList.update k (VList (ys @ [VDict d'])) cont, nest))"
    if "map_of cont k = Some (VList (ys @ [VDict d]))"
    using that by (rule get_or_create_nest_last_element)
  show "\<exists>d1 nest. get_or_create_nest d (hs @ butlast key) True = Inr (d1, nest)
      \<and> map_of nest (last key) = None
      \<and> out st' = AList.update k
          (VList (ys @ [VDict (put_nest d1 (hs @ butlast key) True
                                 (AList.update (last key) v nest))])) (out st)"
    if "header_namespace st = k # hs \<and> map_of (out st) k = Some (VList (ys @ [VDict d]))
        \<and> parse_key_value_pair m re pf src pos = Some (Inr (p, key, v))
        \<and> key_value_rule m re pf src pos st = Some (Inr (p', st'))"
    using that by (elim conjE) (rule key_value_rule_last_element)
  show "\<exists>st2. key_value_rule m re pf src pos st = Some (Inr (p, st2))
      \<and> out st2 = AList.update k (VList (ys @ [VDict (AList.update x v d)])) (out st)"
    if "header_namespace st = [k] \<and> map_of (out st) k = Some (VList (ys @ [VDict d]))
        \<and> parse_key_value_pair m re pf src pos = Some (Inr (p, [x], v))
        \<and> \<not> is_flag (flags_of st) [k] FROZEN \<and> map_of d x = None"
    using that by (elim conjE) (rule key_value_rule_simple_key_last_element)
  show "\<exists>d1 nest. get_or_create_nest d ks True = Inr (d1, nest)
      \<and> out st' = AList.update k (VList (ys @ [VDict d1])) (out st)"
    if "map_of (out st) k = Some (VList (ys @ [VDict d]))
        \<and> create_dict_rule src pos st = Inr (p', st') \<and> header_namespace st' = k # ks"
    using that by (elim conjE) (rule create_dict_rule_last_element)
  show "loads (n + 6) toml_re parse_float (str ''[[a]]\<newline>x=1\<newline>[[a]]\<newline>x=2'') =
      Some (Inr [(str ''a'', VList [VDict [(str ''x'', VInt 1)], VDict [(str ''x'', VInt 2)]])])"
    by (rule loads_mono [OF array_of_tables_key_values]) simp
  show "loads (n + 6) toml_re parse_float (str ''[[a]]\<newline>[[a]]\<newline>[a.b]\<newline>x=1'') =
      Some (Inr [(str ''a'', VList [VDict [], VDict [(str ''b'', VDict [(str ''x'', VInt 1)])]])])"
    by (rule loads_mono [OF array_of_tables_sub_table]) simp
  show "loads (n + 7) toml_re parse_float
        (str ''[[a]]\<newline>x=1\<newline>[[a]]\<newline>[[a]]\<newline>x=3'') =
      Some (Inr [(str ''a'', VList [VDict [(str ''x'', VInt 1)], VDict [],
                                    VDict [(str ''x'', VInt 3)]])])"
    by (rule loads_mono [OF array_of_tables_three_elements]) simp
  show "loads (n + 8) toml_re parse_float
        (str ''[[a]]\<newline>[a.b]\<newline>[[a]]\<newline>[[a]]\<newline>[a.b]\<newline>x=1'') =
      Some (Inr [(str ''a'', VList [VDict [(str ''b'', VDict [])], VDict [],
                                    VDict [(str ''b'', VDict [(str ''x'', VInt 1)])]])])"
    by (rule loads_mono [OF array_of_tables_three_elements_sub_table]) simp
qed

lemma last_element_examples:
  "parse_key_value_pair 2 toml_re keep_text (str ''x=1'') 0
    = Some (Inr (3, [str ''x''], VInt 1))"
  "key_value_rule 2 toml_re keep_text (str ''x=1'') 0
      \<lparr>out = [(str ''a'', VList [VDict [], VDict [], VDict []])],
       flags_of = [(str ''a'', Flag_node {EXPLICIT_NEST} {} [])],
       header_namespace = [str ''a'']\<rparr>
    = Some (Inr (3,
      \<lparr>out = [(str ''a'', VList [VDict [], VDict [], VDict [(str ''x'', VInt 1)]])],
       flags_of = [(str ''a'', Flag_node {EXPLICIT_NEST} {}
                     [(str ''x'', Flag_node {EXPLICIT_NEST} {} [])])],
       header_namespace = [str ''a'']\<rparr>))"
  "create_dict_rule (str ''[a.b]'') 0
      \<lparr>out = [(str ''a'', VList [VDict [], VDict [], VDict []])],
       flags_of = [(str ''a'', Flag_node {EXPLICIT_NEST} {} [])],
       header_namespace = [str ''a'']\<rparr>
    = Inr (5,
      \<lparr>out = [(str ''a'', VList [VDict [], VDict [], VDict [(str ''b'', VDict [])]])],
       flags_of = [(str ''a'', Flag_node {EXPLICIT_NEST} {}
                     [(str ''b'', Flag_node {EXPLICIT_NEST} {} [])])],
       header_namespace = [str ''a'', str ''b'']\<rparr> :: ustr State)"
  by code_simp+

theorem statements_after_array_header_fill_last_element_witness:
  "get_or_create_nest
      [(str ''a'', VList [VDict [], VDict [], VDict [(str ''b'', VDict [])]])]
      [str ''a'', str ''b''] True
    = Inr ([(str ''a'', VList [VDict [], VDict [], VDict [(str ''b'', VDict [])]])],
           [] :: ustr dict)
   \<and> (\<exists>st2. key_value_rule 2 toml_re keep_text (str ''x=1'') 0
          \<lparr>out = [(str ''a'', VList [VDict [], VDict [], VDict []])],
           flags_of = [(str ''a'', Flag_node {EXPLICIT_NEST} {} [])],
           header_namespace = [str ''a'']\<rparr> = Some (Inr (3, st2))
        \<and> out st2 = [(str ''a'', VList [VDict [], VDict [], VDict [(str ''x'', VInt 1)]])])
   \<and> (\<exists>d1 nest. get_or_create_nest ([] :: ustr dict) [] True = Inr (d1, nest)
        \<and> map_of nest (str ''x'') = None
        \<and> [(str ''a'', VList [VDict [], VDict [], VDict [(str ''x'', VInt 1)]])]
          = [(str ''a'', VList [VDict [], VDict [], VDict (AList.update (str ''x'') (VInt 1) nest)])])
   \<and> (\<exists>d1 nest. get_or_create_nest ([] :: ustr dict) [str ''b''] True = Inr (d1, nest)
        \<and> [(str ''a'', VList [VDict [], VDict [], VDict [(str ''b'', VDict [])]])]
          = [(str ''a'', VList [VDict [], VDict [], VDict d1])])"
proof (intro conjI)
  note T = statements_after_array_header_fill_last_element
      [where st = "\<lparr>out = [(str ''a'', VList [VDict [], VDict [], VDict []])],
             flags_of = [(str ''a'', Flag_node {EXPLICIT_NEST} {} [])],
             header_namespace = [str ''a'']\<rparr> :: ustr State"
        and k = "str ''a''" and hs = "[]" and ys = "[VDict [], VDict []]" and d = "[]"
        and m = 2 and re = toml_re and pf = keep_text and src = "str ''x=1''" and pos = 0
        and p = 3 and x = "str ''x''" and v = "VInt 1" and key = "[str ''x'']" and p' = 3
        and st' = "\<lparr>out = [(str ''a'', VList [VDict [], VDict [], VDict [(str ''x'', VInt 1)]])],
             flags_of = [(str ''a'', Flag_node {EXPLICIT_NEST} {}
                     [(str ''x'', Flag_node {EXPLICIT_NEST} {} [])])],
             header_namespace = [str ''a'']\<rparr>"]
  show "get_or_create_nest
      [(str ''a'', VList [VDict [], VDict [], VDict [(str ''b'', VDict [])]])]
      [str ''a'', str ''b''] True
    = Inr ([(str ''a'', VList [VDict [], VDict [], VDict [(str ''b'', VDict [])]])],
           [] :: ustr dict)"
    using statements_after_array_header_fill_last_element
      [where cont = "[(str ''a'', VList [VDict [], VDict [], VDict [(str ''b'', VDict [])]])]"
        and k = "str ''a''" and ks = "[str ''b'']" and ys = "[VDict [], VDict []]"
        and d = "[(str ''b'', VDict [])] :: ustr dict", THEN conjunct1]
    by simp
  show "\<exists>st2. key_value_rule 2 toml_re keep_text (str ''x=1'') 0
          \<lparr>out = [(str ''a'', VList [VDict [], VDict [], VDict []])],
           flags_of = [(str ''a'', Flag_node {EXPLICIT_NEST} {} [])],
           header_namespace = [str ''a'']\<rparr> = Some (Inr (3, st2))
        \<and> out st2 = [(str ''a'', VList [VDict [], VDict [], VDict [(str ''x'', VInt 1)]])]"
    using T [THEN conjunct2, THEN conjunct2, THEN conjunct1] last_element_examples(1)
    by simp
  show "\<exists>d1 nest. get_or_create_nest ([] :: ustr dict) [] True = Inr (d1, nest)
        \<and> map_of nest (str ''x'') = None
        \<and> [(str ''a'', VList [VDict [], VDict [], VDict [(str ''x'', VInt 1)]])]
          = [(str ''a'', VList [VDict [], VDict [], VDict (AList.update (str ''x'') (VInt 1) nest)])]"
    using T [THEN conjunct2, THEN conjunct1] last_element_examples(1,2)
    by simp
  show "\<exists>d1 nest. get_or_create_nest ([] :: ustr dict) [str ''b''] True = Inr (d1, nest)
        \<and> [(str ''a'', VList [VDict [], VDict [], VDict [(str ''b'', VDict [])]])]
          = [(str ''a'', VList [VDict [], VDict [], VDict d1])]"
    using statements_after_array_header_fill_last_element
      [where st = "\<lparr>out = [(str ''a'', VList [VDict [], VDict [], VDict []])],
             flags_of = [(str ''a'', Flag_node {EXPLICIT_NEST} {} [])],
             header_namespace = [str ''a'']\<rparr> :: ustr State"
        and k = "str ''a''" and ks = "[str ''b'']" and ys = "[VDict [], VDict []]" and d = "[]"
        and src = "str ''[a.b]''" and pos = 0 and p' = 5
        and st' = "\<lparr>out = [(str ''a'', VList [VDict [], VDict [], VDict [(str ''b'', VDict [])]])],
             flags_of = [(str ''a'', Flag_node {EXPLICIT_NEST} {}
                     [(str ''b'', Flag_node {EXPLICIT_NEST} {} [])])],
             header_namespace = [str ''a'', str ''b'']\<rparr>",
        THEN conjunct2, THEN conjunct2, THEN conjunct2, THEN conjunct1]
      last_element_examples(3)
    by simp
qed

section \<open>Dates, times and numbers\<close>

definition is_date_value :: "'f val \<Rightarrow> bool" where
  "is_date_value v = (case v of VDate _ \<Rightarrow> True | VDatetime _ _ _ \<Rightarrow> True | _ \<Rightarrow> False)"

definition is_time_value :: "'f val \<Rightarrow> bool" where
  "is_time_value v = (case v of VTime _ \<Rightarrow> True | _ \<Rightarrow> False)"

lemma parse_datetime_value: "parse_datetime src pos m = Inr (p, v) \<Longrightarrow> is_date_value v"
  unfolding parse_datetime_def Let_def datetime_def
  by (auto simp: and_then_eq_Inr is_date_value_def split: if_splits)

lemma parse_localtime_value: "parse_localtime src pos m = Inr (p, v) \<Longrightarrow> is_time_value v"
  unfolding parse_localtime_def Let_def
  by (auto simp: and_then_eq_Inr is_time_value_def split: if_splits)

lemma parse_value_datetime_first:
  assumes "char_at src pos = Some c" and "is_dec_digit c"
    and "RE_DATETIME re src pos = Some m"
  shows "parse_value (Suc n) re pf src pos = Some (parse_datetime src pos m)"
  using assms unfolding parse_value.simps parse_value_body_def Let_def
  by (simp add: is_dec_digit_def)

lemma parse_value_localtime_second:
  assumes "char_at src pos = Some c" and "is_dec_digit c"
    and "RE_DATETIME re src pos = None" and "RE_LOCAL_TIME re src pos = Some m"
  shows "parse_value (Suc n) re pf src pos = Some (parse_localtime src pos m)"
  using assms unfolding parse_value.simps parse_value_body_def Let_def
  by (simp add: is_dec_digit_def)

lemma local_date_document:
  "loads 3 toml_re keep_text (str ''x = 1979-05-27'') =
     Some (Inr [(str ''x'', VDate \<lparr>year = 1979, month = 5, day = 27\<rparr>)])"
  by code_simp

lemma integer_document:
  "loads 3 toml_re keep_text (str ''x = 1979'') = Some (Inr [(str ''x'', VInt 1979)])"
  by code_simp

lemma impossible_date_document:
  fixes parse_float :: "'f::equal ParseFloat"
  shows "loads 3 toml_re parse_float (str ''x = 2021-02-30'') = Some (Inl ValueError)"
  by code_simp

lemma impossible_date_matches:
  "RE_DATETIME toml_re (str ''2021-02-30'') 0 =
     Some \<lparr>m_end = 10, m_groups = [Some (str ''2021''), Some (str ''02''), Some (str ''30''),
       None, None, None, None, None, None]\<rparr>"
  by code_simp

lemma impossible_date_value:
  "parse_value (Suc 0) toml_re keep_text (str ''2021-02-30'') 0 = Some (Inl ValueError)"
  by code_simp

text \<open>
  C4. Not every failure is a \<open>TOMLDecodeError\<close>: the date pattern checks each field's
  range, not the calendar, so it matches \<open>2021-02-30\<close>; \<open>parse_datetime\<close> passes the
  three numbers to \<open>date\<close>, which raises \<open>ValueError\<close>, and nothing between there and
  the caller of \<open>loads\<close> catches it. With any float parser and any fuel from three
  units on, \<open>x = 2021-02-30\<close> raises a bare \<open>ValueError\<close>, with no message and no
  location.
\<close>

theorem impossible_date_raises_ValueError:
  fixes parse_float :: "'f::equal ParseFloat"
  shows "loads (n + 3) toml_re parse_float (str ''x = 2021-02-30'') = Some (Inl ValueError)"
  by (rule loads_mono [OF impossible_date_document]) simp

text \<open>
  C5 as stated fails where the date pattern matches digits that are no calendar date:
  at position 0 of \<open>2021-02-30\<close> the pattern matches, and \<open>parse_value\<close> returns no
  value at all.
\<close>

theorem date_pattern_match_without_date_value:
  "RE_DATETIME toml_re (str ''2021-02-30'') 0 \<noteq> None
    \<and> parse_value (Suc 0) toml_re keep_text (str ''2021-02-30'') 0 = Some (Inl ValueError)"
  by (simp add: impossible_date_matches impossible_date_value)

text \<open>
  C5, amended. At a position that holds a decimal digit (so that the string and boolean
  branches do not apply), whatever the decimal pattern would match there: if the
  date-time pattern matches, the outcome of \<open>parse_value\<close> is the outcome of
  \<open>parse_datetime\<close> on that match, and a value it returns is a date or a date-time;
  if it does not and the local-time pattern matches, the outcome is that of
  \<open>parse_localtime\<close>, and a value it returns is a time. Neither is ever an integer
  or a float. So \<open>x = 1979-05-27\<close> yields a local date and \<open>x = 1979\<close> the integer.
\<close>

theorem date_and_time_patterns_come_before_decimal:
  assumes "char_at src pos = Some c" and "is_dec_digit c"
  shows "(\<forall>m. RE_DATETIME re src pos = Some m \<longrightarrow>
            parse_value (Suc n) re parse_float src pos = Some (parse_datetime src pos m)
            \<and> (\<forall>p v. parse_datetime src pos m = Inr (p, v :: 'f val) \<longrightarrow> is_date_value v))
    \<and> (\<forall>m. RE_DATETIME re src pos = None \<and> RE_LOCAL_TIME re src pos = Some m \<longrightarrow>
            parse_value (Suc n) re parse_float src pos = Some (parse_localtime src pos m)
            \<and> (\<forall>p v. parse_localtime src pos m = Inr (p, v :: 'f val) \<longrightarrow> is_time_value v))
    \<and> loads (k + 3) toml_re keep_text (str ''x = 1979-05-27'') =
         Some (Inr [(str ''x'', VDate \<lparr>year = 1979, month = 5, day = 27\<rparr>)])
    \<and> loads (k + 3) toml_re keep_text (str ''x = 1979'') = Some (Inr [(str ''x'', VInt 1979)])"
proof (intro conjI allI impI)
  fix m
  assume "RE_DATETIME re src pos = Some m"
  with assms show "parse_value (Suc n) re parse_float src pos = Some (parse_datetime src pos m)"
    by (rule parse_value_datetime_first)
next
  fix m p and v :: "'f val"
  assume "parse_datetime src pos m = Inr (p, v)"
  then show "is_date_value v" by (rule parse_datetime_value)
next
  fix m
  assume "RE_DATETIME re src pos = None \<and> RE_LOCAL_TIME re src pos = Some m"
  with assms show "parse_value (Suc n) re parse_float src pos = Some (parse_localtime src pos m)"
    by (simp add: parse_value_localtime_second)
next
  fix m p and v :: "'f val"
  assume "parse_localtime src pos m = Inr (p, v)"
  then show "is_time_value v" by (rule parse_localtime_value)
next
  show "loads (k + 3) toml_re keep_text (str ''x = 1979-05-27'') =
         Some (Inr [(str ''x'', VDate \<lparr>year = 1979, month = 5, day = 27\<rparr>)])"
    by (rule loads_mono [OF local_date_document]) simp
next
  show "loads (k + 3) toml_re keep_text (str ''x = 1979'') = Some (Inr [(str ''x'', VInt 1979)])"
    by (rule loads_mono [OF integer_document]) simp
qed

lemma date_text_matches:
  "char_at (str ''x = 1979-05-27'') 4 = Some (ord CHR ''1'') \<and> is_dec_digit (ord CHR ''1'')
    \<and> RE_DATETIME toml_re (str ''x = 1979-05-27'') 4 =
        Some \<lparr>m_end = 14, m_groups = [Some (str ''1979''), Some (str ''05''), Some (str ''27''),
          None, None, None, None, None, None]\<rparr>
    \<and> RE_DEC_OR_FLOAT toml_re (str ''x = 1979-05-27'') 4 = Some \<lparr>m_end = 8, m_groups = []\<rparr>"
  by code_simp

lemma time_text_matches:
  "char_at (str ''x = 07:32:00'') 4 = Some (ord CHR ''0'') \<and> is_dec_digit (ord CHR ''0'')
    \<and> RE_DATETIME toml_re (str ''x = 07:32:00'') 4 = None
    \<and> RE_LOCAL_TIME toml_re (str ''x = 07:32:00'') 4 =
        Some \<lparr>m_end = 12, m_groups = [Some (str ''07''), Some (str ''32''), Some (str ''00''),
          None]\<rparr>
    \<and> RE_DEC_OR_FLOAT toml_re (str ''x = 07:32:00'') 4 = Some \<lparr>m_end = 5, m_groups = []\<rparr>"
  by code_simp

lemma date_text_value:
  "parse_datetime (str ''x = 1979-05-27'') 4
     \<lparr>m_end = 14, m_groups = [Some (str ''1979''), Some (str ''05''), Some (str ''27''),
          None, None, None, None, None, None]\<rparr> =
   Inr (14, VDate \<lparr>year = 1979, month = 5, day = 27\<rparr> :: ustr val)"
  by code_simp

lemma time_text_value:
  "parse_localtime (str ''x = 07:32:00'') 4
     \<lparr>m_end = 12, m_groups = [Some (str ''07''), Some (str ''32''), Some (str ''00''), None]\<rparr> =
   Inr (12, VTime \<lparr>hour = 7, minute = 32, second = 0, microsecond = 0\<rparr> :: ustr val)"
  by code_simp

theorem date_and_time_patterns_come_before_decimal_witness:
  "parse_value (Suc 0) toml_re keep_text (str ''x = 1979-05-27'') 4 =
     Some (Inr (14, VDate \<lparr>year = 1979, month = 5, day = 27\<rparr>))
   \<and> is_date_value (VDate \<lparr>year = 1979, month = 5, day = 27\<rparr> :: ustr val)
   \<and> parse_value (Suc 0) toml_re keep_text (str ''x = 07:32:00'') 4 =
     Some (Inr (12, VTime \<lparr>hour = 7, minute = 32, second = 0, microsecond = 0\<rparr>))
   \<and> is_time_value (VTime \<lparr>hour = 7, minute = 32, second = 0, microsecond = 0\<rparr> :: ustr val)"
  using
    date_and_time_patterns_come_before_decimal
      [of "str ''x = 1979-05-27''" 4 "ord CHR ''1''" toml_re 0 keep_text 0]
    date_and_time_patterns_come_before_decimal
      [of "str ''x = 07:32:00''" 4 "ord CHR ''0''" toml_re 0 keep_text 0]
    date_text_matches time_text_matches
  by (simp add: date_text_value time_text_value is_date_value_def is_time_value_def, blast)

section \<open>Unicode escapes\<close>

definition hex_value :: "ustr \<Rightarrow> int" where
  "hex_value s = foldl (\<lambda>a c. a * 16 + int (the (digit_value c))) 0 s"

lemma hexdigit_value: "c \<in> set (str hexdigits) \<Longrightarrow> \<exists>v < 16. digit_value c = Some v"
  by (auto simp: str_def hexdigits_def digit_value_def)

lemma hexdigit_not_sign: "c \<in> set (str hexdigits) \<Longrightarrow> c \<noteq> 95 \<and> c \<noteq> 45 \<and> c \<noteq> 43"
  by (auto simp: str_def hexdigits_def)

lemma int_digits_hex:
  "\<forall>c \<in> set s. c \<in> set (str hexdigits) \<Longrightarrow>
    int_digits 16 acc s = Some (foldl (\<lambda>a c. a * 16 + int (the (digit_value c))) acc s)"
proof (induction s arbitrary: acc)
  case Nil
  then show ?case by simp
next
  case (Cons c s)
  then obtain v where "v < 16" "digit_value c = Some v" using hexdigit_value [of c] by auto
  moreover have "c \<noteq> 95" using Cons.prems hexdigit_not_sign [of c] by simp
  ultimately show ?case using Cons by simp
qed

lemma py_int_hex:
  assumes "\<forall>c \<in> set s. c \<in> set (str hexdigits)" and "s \<noteq> []"
  shows "py_int 16 s = Inr (hex_value s)"
proof -
  from assms obtain c cs where s: "s = c # cs" by (cases s) auto
  with assms(1) have c: "c \<in> set (str hexdigits)" by simp
  then have "is_digit_of 16 c" using hexdigit_value [of c] by (auto simp: is_digit_of_def)
  then have "int_unsigned 16 s = int_digits 16 0 s" by (simp add: s int_unsigned_def)
  with int_digits_hex [OF assms(1), of 0] hexdigit_not_sign [OF c]
  show ?thesis by (simp add: py_int_def s hex_value_def)
qed

definition hex_char_outcome :: "ustr \<Rightarrow> Pos \<Rightarrow> nat \<Rightarrow> bool" where
  "hex_char_outcome src pos hex_len \<longleftrightarrow>
     (let payload = slice src pos (pos + hex_len) in
      if length payload \<noteq> hex_len \<or> (\<exists>c \<in> set payload. c \<notin> set (str hexdigits)) then
        \<exists>c. parse_hex_char src pos hex_len = Inl (TOMLDecodeError Invalid_hex_value c)
      else if \<not> is_unicode_scalar_value (hex_value payload) then
        \<exists>c. parse_hex_char src pos hex_len =
              Inl (TOMLDecodeError Escaped_character_not_unicode_scalar c)
      else parse_hex_char src pos hex_len = Inr (pos + hex_len, [nat (hex_value payload)]))"

lemma hex_char_outcome_holds:
  assumes "0 < hex_len"
  shows "hex_char_outcome src pos hex_len"
proof -
  define p where "p = slice src pos (pos + hex_len)"
  define bad where "bad \<longleftrightarrow> length p \<noteq> hex_len \<or> (\<exists>c \<in> set p. c \<notin> set (str hexdigits))"
  show ?thesis
  proof (cases bad)
    case True
    then have "parse_hex_char src pos hex_len = Inl (suffixed_err src pos Invalid_hex_value)"
      unfolding parse_hex_char_def Let_def bad_def p_def by (simp only: if_True)
    with True show ?thesis
      using suffixed_err_is_TOMLDecodeError [of src pos Invalid_hex_value]
      unfolding hex_char_outcome_def Let_def bad_def p_def by (simp only: if_True) auto
  next
    case False
    then have len: "length p = hex_len" and hex: "\<forall>c \<in> set p. c \<in> set (str hexdigits)"
      unfolding bad_def by blast+
    from len assms have "p \<noteq> []" by auto
    with hex have v: "py_int 16 p = Inr (hex_value p)" by (rule py_int_hex)
    have eq: "parse_hex_char src pos hex_len =
        (if \<not> is_unicode_scalar_value (hex_value p)
         then Inl (suffixed_err src (pos + hex_len) Escaped_character_not_unicode_scalar)
         else Inr (pos + hex_len, [nat (hex_value p)]))"
      using False v unfolding parse_hex_char_def Let_def bad_def p_def by simp
    show ?thesis
    proof (cases "is_unicode_scalar_value (hex_value p)")
      case True
      with eq False show ?thesis
        unfolding hex_char_outcome_def Let_def bad_def p_def by simp
    next
      case ns: False
      with eq False show ?thesis
        using suffixed_err_is_TOMLDecodeError
          [of src "pos + hex_len" Escaped_character_not_unicode_scalar]
        unfolding hex_char_outcome_def Let_def bad_def p_def by simp
    qed
  qed
qed

lemma escape_u:
  "slice src pos (pos + 2) = [92, ord CHR ''u''] \<Longrightarrow>
     parse_basic_str_escape src pos ml = parse_hex_char src (pos + 2) 4"
  by (simp add: parse_basic_str_escape_def BASIC_STR_ESCAPE_REPLACEMENTS_def)

lemma escape_U:
  "slice src pos (pos + 2) = [92, ord CHR ''U''] \<Longrightarrow>
     parse_basic_str_escape src pos ml = parse_hex_char src (pos + 2) 8"
  by (simp add: parse_basic_str_escape_def BASIC_STR_ESCAPE_REPLACEMENTS_def)

lemma surrogate_escape_document:
  "loads 3 toml_re keep_text (str ''x = \"'' @ [92] @ str ''uD800\"'') =
    Some (Inl (TOMLDecodeError Escaped_character_not_unicode_scalar (Line_column 1 12)))"
  by code_simp

lemma letter_escape_document:
  "loads 3 toml_re keep_text (str ''x = \"'' @ [92] @ str ''u0041\"'') =
    Some (Inr [(str ''x'', VStr (str ''A''))])"
  by code_simp

text \<open>
  C7. \<open>\u\<close> takes exactly four hex digits and \<open>\U\<close> exactly eight, and they must denote
  a Unicode scalar value: the escape parser hands \<open>\u\<close> and \<open>\U\<close> to \<open>parse_hex_char\<close>
  with lengths 4 and 8, in a multi-line string or not. If fewer characters than that
  are left, or one of them is no hex digit, \<open>parse_hex_char\<close> raises the format error
  "Invalid hex value"; if the number they denote is no scalar value, it raises the format
  error "Escaped character is not a Unicode scalar value"; otherwise it returns the
  position after exactly that many digits and the one character with that code. So
  \<open>x = "\uD800"\<close> raises the format error and \<open>x = "\u0041"\<close> gives the string
  \<open>A\<close>.
\<close>

theorem unicode_escape_outcome:
  "(slice src pos (pos + 2) = [92, ord CHR ''u''] \<longrightarrow>
      parse_basic_str_escape src pos ml = parse_hex_char src (pos + 2) 4
      \<and> hex_char_outcome src (pos + 2) 4)
   \<and> (slice src pos (pos + 2) = [92, ord CHR ''U''] \<longrightarrow>
      parse_basic_str_escape src pos ml = parse_hex_char src (pos + 2) 8
      \<and> hex_char_outcome src (pos + 2) 8)
   \<and> loads (n + 3) toml_re keep_text (str ''x = \"'' @ [92] @ str ''uD800\"'') =
      Some (Inl (TOMLDecodeError Escaped_character_not_unicode_scalar (Line_column 1 12)))
   \<and> loads (n + 3) toml_re keep_text (str ''x = \"'' @ [92] @ str ''u0041\"'') =
      Some (Inr [(str ''x'', VStr (str ''A''))])"
proof (intro conjI impI)
  show "loads (n + 3) toml_re keep_text (str ''x = \"'' @ [92] @ str ''uD800\"'') =
      Some (Inl (TOMLDecodeError Escaped_character_not_unicode_scalar (Line_column 1 12)))"
    by (rule loads_mono [OF surrogate_escape_document]) simp
  show "loads (n + 3) toml_re keep_text (str ''x = \"'' @ [92] @ str ''u0041\"'') =
      Some (Inr [(str ''x'', VStr (str ''A''))])"
    by (rule loads_mono [OF letter_escape_document]) simp
qed (simp_all add: escape_u escape_U hex_char_outcome_holds)

lemma hex_payloads:
  "hex_value (str ''0041'') = 65 \<and> hex_value (str ''D800'') = 55296
    \<and> hex_value (str ''00110000'') = 1114112 \<and> hex_value (str ''0001F600'') = 128512"
  by code_simp

theorem unicode_escape_outcome_witness:
  "parse_basic_str_escape (92 # str ''u0041'') 0 False = Inr (6, str ''A'')
   \<and> (\<exists>c. parse_basic_str_escape (92 # str ''uD800'') 0 False =
          Inl (TOMLDecodeError Escaped_character_not_unicode_scalar c))
   \<and> (\<exists>c. parse_basic_str_escape (92 # str ''u00G1'') 0 False =
          Inl (TOMLDecodeError Invalid_hex_value c))
   \<and> (\<exists>c. parse_basic_str_escape (92 # str ''u004'') 0 False =
          Inl (TOMLDecodeError Invalid_hex_value c))
   \<and> parse_basic_str_escape (92 # str ''U0001F600'') 0 True = Inr (10, [128512])
   \<and> (\<exists>c. parse_basic_str_escape (92 # str ''U00110000'') 0 True =
          Inl (TOMLDecodeError Escaped_character_not_unicode_scalar c))"
  using unicode_escape_outcome [of "92 # str ''u0041''" 0 False 0]
    unicode_escape_outcome [of "92 # str ''uD800''" 0 False 0]
    unicode_escape_outcome [of "92 # str ''u00G1''" 0 False 0]
    unicode_escape_outcome [of "92 # str ''u004''" 0 False 0]
    unicode_escape_outcome [of "92 # str ''U0001F600''" 0 True 0]
    unicode_escape_outcome [of "92 # str ''U00110000''" 0 True 0]
    hex_payloads
  by (simp add: hex_char_outcome_def slice_def str_def hexdigits_def
      is_unicode_scalar_value_def)

section \<open>Fractional seconds\<close>

definition dec_digit :: "uchar \<Rightarrow> int" where
  "dec_digit c = int (c - ord CHR ''0'')"

definition dec_value :: "ustr \<Rightarrow> int" where
  "dec_value s = foldl (\<lambda>a c. a * 10 + dec_digit c) 0 s"

lemma dec_digit_value: "is_dec_digit c \<Longrightarrow> digit_value c = Some (c - ord CHR ''0'') \<and> c - ord CHR ''0'' < 10 \<and> c \<noteq> 95 \<and> c \<noteq> 45 \<and> c \<noteq> 43"
  by (auto simp: is_dec_digit_def digit_value_def)

lemma int_digits_dec:
  "list_all is_dec_digit s \<Longrightarrow>
    int_digits 10 acc s = Some (foldl (\<lambda>a c. a * 10 + dec_digit c) acc s)"
proof (induction s arbitrary: acc)
  case Nil
  then show ?case by simp
next
  case (Cons c s)
  then show ?case using dec_digit_value [of c] by (simp add: dec_digit_def)
qed

lemma py_int_dec:
  assumes "list_all is_dec_digit s" and "s \<noteq> []"
  shows "py_int 10 s = Inr (dec_value s)"
proof -
  from assms obtain c cs where s: "s = c # cs" by (cases s) auto
  with assms(1) have c: "is_dec_digit c" by simp
  then have "is_digit_of 10 c" using dec_digit_value [of c] by (simp add: is_digit_of_def)
  then have "int_unsigned 10 s = int_digits 10 0 s" by (simp add: s int_unsigned_def)
  with int_digits_dec [OF assms(1), of 0] dec_digit_value [OF c]
  show ?thesis by (simp add: py_int_def s dec_value_def)
qed

lemma foldl_dec_acc:
  "foldl (\<lambda>a c. a * 10 + dec_digit c) acc s = acc * 10 ^ length s + dec_value s"
proof (induction s arbitrary: acc)
  case Nil
  then show ?case by (simp add: dec_value_def)
next
  case (Cons c s)
  have "dec_value (c # s) = foldl (\<lambda>a c. a * 10 + dec_digit c) (dec_digit c) s"
    by (simp add: dec_value_def)
  also have "\<dots> = dec_digit c * 10 ^ length s + dec_value s" by (rule Cons.IH)
  finally have d: "dec_value (c # s) = dec_digit c * 10 ^ length s + dec_value s" .
  have "foldl (\<lambda>a c. a * 10 + dec_digit c) acc (c # s) =
      (acc * 10 + dec_digit c) * 10 ^ length s + dec_value s"
    by (simp add: Cons.IH)
  also have "\<dots> = acc * 10 ^ length (c # s) + dec_value (c # s)"
    unfolding d by (simp add: algebra_simps)
  finally show ?case .
qed

lemma dec_value_append: "dec_value (xs @ ys) = dec_value xs * 10 ^ length ys + dec_value ys"
  using foldl_dec_acc [of "dec_value xs" ys] by (simp add: dec_value_def)

lemma dec_value_zeros: "dec_value (replicate k 48) = 0"
proof (induction k)
  case 0
  then show ?case by (simp add: dec_value_def)
next
  case (Suc k)
  have "dec_value (replicate (Suc k) 48) = dec_value ([48] @ replicate k 48)" by simp
  also have "\<dots> = dec_value [48] * 10 ^ k + dec_value (replicate k 48)"
    by (simp only: dec_value_append length_replicate)
  finally show ?case using Suc by (simp add: dec_value_def dec_digit_def)
qed

lemma dec_value_range: "list_all is_dec_digit s \<Longrightarrow> 0 \<le> dec_value s \<and> dec_value s < 10 ^ length s"
proof (induction s rule: rev_induct)
  case Nil
  then show ?case by (simp add: dec_value_def)
next
  case (snoc c s)
  then have "0 \<le> dec_digit c \<and> dec_digit c < 10"
    using dec_digit_value [of c] by (simp add: dec_digit_def)
  moreover have "dec_value (s @ [c]) = dec_value s * 10 + dec_digit c"
    by (simp add: dec_value_def)
  moreover from snoc have "0 \<le> dec_value s \<and> dec_value s < 10 ^ length s" by simp
  ultimately show ?case by auto
qed

lemma micros_of_digits:
  assumes "list_all is_dec_digit ds"
  shows "micros_of (Some (c # ds)) = Inr ((dec_value ds * 10 ^ 6) div 10 ^ length ds)"
proof (cases "length ds \<le> 6")
  case True
  let ?k = "6 - length ds"
  have pad: "take 6 (ljust 6 48 ds) = ds @ replicate ?k 48"
    using True by (simp add: ljust_def)
  have "list_all is_dec_digit (ds @ replicate ?k 48)"
    using assms by (auto simp: list_all_iff is_dec_digit_def)
  moreover have "ds @ replicate ?k 48 \<noteq> []" using True by auto
  ultimately have "py_int 10 (ds @ replicate ?k 48) =
      Inr (dec_value (ds @ replicate ?k 48))" by (rule py_int_dec)
  also have "dec_value (ds @ replicate ?k 48) = dec_value ds * 10 ^ ?k"
    by (simp add: dec_value_append dec_value_zeros)
  also have "dec_value ds * 10 ^ ?k = (dec_value ds * 10 ^ 6) div 10 ^ length ds"
  proof -
    have e: "(10::int) ^ 6 = 10 ^ ?k * 10 ^ length ds"
      using True by (simp add: power_add [symmetric])
    have "(dec_value ds * 10 ^ 6) div 10 ^ length ds =
        (dec_value ds * 10 ^ ?k) * 10 ^ length ds div 10 ^ length ds"
      by (simp only: e mult.assoc)
    also have "\<dots> = dec_value ds * 10 ^ ?k"
      by (rule nonzero_mult_div_cancel_right) simp
    finally show ?thesis by simp
  qed
  finally show ?thesis by (simp add: micros_of_def pad)
next
  case False
  then have len: "6 < length ds" by simp
  have pad: "take 6 (ljust 6 48 ds) = take 6 ds"
    using len by (simp add: ljust_def)
  have split: "ds = take 6 ds @ drop 6 ds" by simp
  have "list_all is_dec_digit (take 6 ds)" and rest: "list_all is_dec_digit (drop 6 ds)"
    using assms by (auto simp: list_all_iff dest: in_set_takeD in_set_dropD)
  moreover have "take 6 ds \<noteq> []" using len by auto
  ultimately have p: "py_int 10 (take 6 ds) = Inr (dec_value (take 6 ds))"
    by (intro py_int_dec)
  let ?r = "length ds - 6"
  have d: "dec_value ds = dec_value (take 6 ds) * 10 ^ ?r + dec_value (drop 6 ds)"
    using dec_value_append [of "take 6 ds" "drop 6 ds"] by simp
  have r: "0 \<le> dec_value (drop 6 ds) \<and> dec_value (drop 6 ds) < 10 ^ ?r"
    using dec_value_range [OF rest] by simp
  have l: "?r + 6 = length ds" using len by simp
  have e: "(10::int) ^ length ds = 10 ^ ?r * 10 ^ 6"
    using power_add [of "10::int" ?r 6] unfolding l by simp
  have "(dec_value ds * 10 ^ 6) div 10 ^ length ds =
      (dec_value ds * 10 ^ 6) div (10 ^ ?r * 10 ^ 6)"
    by (simp only: e)
  also have "\<dots> = dec_value ds div 10 ^ ?r"
    by (rule div_mult_mult2) simp
  also have "\<dots> = dec_value (take 6 ds)"
    using r by (simp add: d div_pos_pos_trivial)
  finally show ?thesis using p by (simp add: micros_of_def pad)
qed

lemma parse_localtime_micros:
  assumes "parse_localtime src pos m = Inr (p, v)"
  shows "\<exists>t frac. v = VTime t \<and> groups_at m 3 = Inr frac \<and> micros_of frac = Inr (microsecond t)"
  using assms unfolding parse_localtime_def Let_def time_def
  by (auto simp: and_then_eq_Inr split: if_splits)

lemma parse_datetime_micros:
  assumes "parse_datetime src pos m = Inr (p, v)" and "groups_at m 3 \<noteq> Inr None"
  shows "\<exists>d t tz frac. v = VDatetime d t tz \<and> groups_at m 6 = Inr frac
    \<and> micros_of frac = Inr (microsecond t)"
  using assms unfolding parse_datetime_def Let_def datetime_def time_def
  by (auto simp: and_then_eq_Inr split: if_splits)

lemma nine_digits_document:
  "loads 3 toml_re keep_text (str ''x = 07:32:00.123456789'') =
     Some (Inr [(str ''x'',
       VTime \<lparr>hour = 7, minute = 32, second = 0, microsecond = 123456\<rparr>)])"
  by code_simp

lemma two_digits_document:
  "loads 3 toml_re keep_text (str ''x = 1979-05-27T07:32:00.12'') =
     Some (Inr [(str ''x'', VDatetime \<lparr>year = 1979, month = 5, day = 27\<rparr>
       \<lparr>hour = 7, minute = 32, second = 0, microsecond = 120000\<rparr> None)])"
  by code_simp

text \<open>
  C8. The digits after the decimal point are padded with zeros to six and cut to six:
  for a fraction group of one character and then the decimal digits \<open>ds\<close>, the
  microseconds are the whole part of \<open>0.ds\<close> times a million, rounded down, that is
  \<open>ds\<close> as a number times \<open>10 ^ 6\<close> divided by \<open>10 ^ length ds\<close>. A time that
  \<open>parse_localtime\<close> returns, and a date-time that \<open>parse_datetime\<close> returns for a
  match with a time, carries in its microsecond field what this gives for the fraction
  group of the match. So nine digits \<open>.123456789\<close> give 123456 (not 123457) and two
  digits \<open>.12\<close> give 120000.
\<close>

theorem fractional_seconds_padded_then_truncated:
  "(list_all is_dec_digit ds \<longrightarrow>
      micros_of (Some (c # ds)) = Inr ((dec_value ds * 10 ^ 6) div 10 ^ length ds))
   \<and> (\<forall>p v. parse_localtime src pos m = Inr (p, v :: 'f val) \<longrightarrow>
        (\<exists>t frac. v = VTime t \<and> groups_at m 3 = Inr frac
           \<and> micros_of frac = Inr (microsecond t)))
   \<and> (\<forall>p v. parse_datetime src pos m = Inr (p, v :: 'f val) \<and> groups_at m 3 \<noteq> Inr None \<longrightarrow>
        (\<exists>d t tz frac. v = VDatetime d t tz \<and> groups_at m 6 = Inr frac
           \<and> micros_of frac = Inr (microsecond t)))
   \<and> loads (n + 3) toml_re keep_text (str ''x = 07:32:00.123456789'') =
        Some (Inr [(str ''x'',
          VTime \<lparr>hour = 7, minute = 32, second = 0, microsecond = 123456\<rparr>)])
   \<and> loads (n + 3) toml_re keep_text (str ''x = 1979-05-27T07:32:00.12'') =
        Some (Inr [(str ''x'', VDatetime \<lparr>year = 1979, month = 5, day = 27\<rparr>
          \<lparr>hour = 7, minute = 32, second = 0, microsecond = 120000\<rparr> None)])"
proof (intro conjI allI impI)
  assume "list_all is_dec_digit ds"
  then show "micros_of (Some (c # ds)) = Inr ((dec_value ds * 10 ^ 6) div 10 ^ length ds)"
    by (rule micros_of_digits)
next
  fix p and v :: "'f val"
  assume "parse_localtime src pos m = Inr (p, v)"
  then show "\<exists>t frac. v = VTime t \<and> groups_at m 3 = Inr frac
      \<and> micros_of frac = Inr (microsecond t)"
    by (rule parse_localtime_micros)
next
  fix p and v :: "'f val"
  assume "parse_datetime src pos m = Inr (p, v) \<and> groups_at m 3 \<noteq> Inr None"
  then show "\<exists>d t tz frac. v = VDatetime d t tz \<and> groups_at m 6 = Inr frac
      \<and> micros_of frac = Inr (microsecond t)"
    using parse_datetime_micros [of src pos m p v] by simp
next
  show "loads (n + 3) toml_re keep_text (str ''x = 07:32:00.123456789'') =
        Some (Inr [(str ''x'',
          VTime \<lparr>hour = 7, minute = 32, second = 0, microsecond = 123456\<rparr>)])"
    by (rule loads_mono [OF nine_digits_document]) simp
next
  show "loads (n + 3) toml_re keep_text (str ''x = 1979-05-27T07:32:00.12'') =
        Some (Inr [(str ''x'', VDatetime \<lparr>year = 1979, month = 5, day = 27\<rparr>
          \<lparr>hour = 7, minute = 32, second = 0, microsecond = 120000\<rparr> None)])"
    by (rule loads_mono [OF two_digits_document]) simp
qed

lemma fraction_matches:
  "parse_localtime (str ''07:32:00.12'') 0
     \<lparr>m_end = 11, m_groups = [Some (str ''07''), Some (str ''32''), Some (str ''00''),
        Some (str ''.12'')]\<rparr> =
     Inr (11, VTime \<lparr>hour = 7, minute = 32, second = 0, microsecond = 120000\<rparr> :: ustr val)
   \<and> parse_datetime (str ''1979-05-27T07:32:00.123456789'') 0
     \<lparr>m_end = 29, m_groups = [Some (str ''1979''), Some (str ''05''), Some (str ''27''),
        Some (str ''07''), Some (str ''32''), Some (str ''00''), Some (str ''.123456789''),
        None, None]\<rparr> =
     Inr (29, VDatetime \<lparr>year = 1979, month = 5, day = 27\<rparr>
       \<lparr>hour = 7, minute = 32, second = 0, microsecond = 123456\<rparr> None :: ustr val)"
  by code_simp

lemma fraction_values:
  "dec_value (str ''123456789'') = 123456789 \<and> dec_value (str ''12'') = 12
    \<and> list_all is_dec_digit (str ''123456789'') \<and> list_all is_dec_digit (str ''12'')"
  by code_simp

theorem fractional_seconds_padded_then_truncated_witness:
  "micros_of (Some (str ''.123456789'')) = Inr 123456
   \<and> micros_of (Some (str ''.12'')) = Inr 120000
   \<and> micros_of (Some (str ''.12'')) = Inr (microsecond
        \<lparr>hour = 7, minute = 32, second = 0, microsecond = 120000\<rparr>)
   \<and> micros_of (Some (str ''.123456789'')) = Inr (microsecond
        \<lparr>hour = 7, minute = 32, second = 0, microsecond = 123456\<rparr>)"
  using
    fractional_seconds_padded_then_truncated [of "str ''123456789''" "ord CHR ''.''"
      "str ''07:32:00.12''" 0
      "\<lparr>m_end = 11, m_groups = [Some (str ''07''), Some (str ''32''), Some (str ''00''),
        Some (str ''.12'')]\<rparr>" 0, where ?'f = ustr]
    fractional_seconds_padded_then_truncated [of "str ''12''" "ord CHR ''.''"
      "str ''1979-05-27T07:32:00.123456789''" 0
      "\<lparr>m_end = 29, m_groups = [Some (str ''1979''), Some (str ''05''), Some (str ''27''),
        Some (str ''07''), Some (str ''32''), Some (str ''00''), Some (str ''.123456789''),
        None, None]\<rparr>" 0, where ?'f = ustr]
    fraction_matches fraction_values
  by (simp add: groups_at_def str_def)

section \<open>Multi-line strings\<close>

lemma replicate_2: "replicate 2 d = [d, d]"
  by (simp add: numeral_2_eq_2)

lemma replicate_3: "replicate 3 d = [d, d, d]"
  by (simp add: numeral_3_eq_3)

text \<open>
  The body of a string with a three-character delimiter: no character that the string
  kind forbids and no backslash where escapes are parsed (the delimiter character
  itself may occur), and no delimiter character of the body starts three in a row,
  also not together with the closing ones.
\<close>

fun no_three_in_a_row :: "uchar \<Rightarrow> ustr \<Rightarrow> bool" where
  "no_three_in_a_row d [] = True"
| "no_three_in_a_row d (c # cs) =
     ((c = d \<longrightarrow> take 2 (cs @ [d, d]) \<noteq> [d, d]) \<and> no_three_in_a_row d cs)"

definition string_body :: "uchar \<Rightarrow> uchar set \<Rightarrow> escape_parser option \<Rightarrow> ustr \<Rightarrow> bool" where
  "string_body d eo pe b \<longleftrightarrow>
     list_all (\<lambda>c. c \<noteq> d \<longrightarrow> c \<notin> eo \<and> (pe \<noteq> None \<longrightarrow> c \<noteq> 92)) b
     \<and> no_three_in_a_row d b"

lemma string_body_Cons:
  assumes "string_body d eo pe (c # b)"
  shows "string_body d eo pe b"
    and "c \<noteq> d \<Longrightarrow> c \<notin> eo \<and> (pe \<noteq> None \<longrightarrow> c \<noteq> 92)"
    and "c = d \<Longrightarrow> take 2 (b @ d # d # d # rest) \<noteq> [d, d]"
proof -
  from assms show "string_body d eo pe b"
    and "c \<noteq> d \<Longrightarrow> c \<notin> eo \<and> (pe \<noteq> None \<longrightarrow> c \<noteq> 92)"
    by (simp_all add: string_body_def)
  assume "c = d"
  with assms have "take 2 (b @ [d, d]) \<noteq> [d, d]" by (simp add: string_body_def)
  moreover have "take 2 (b @ d # d # d # rest) = take 2 (b @ [d, d])"
    by (cases b; cases "tl b") (auto simp: numeral_2_eq_2)
  ultimately show "take 2 (b @ d # d # d # rest) \<noteq> [d, d]" by simp
qed

lemma parse_string_loop_body:
  assumes "string_body d eo pe b"
  shows "parse_string_loop (pre @ b @ d # d # d # rest) (length pre) d 3 eo pe r sp =
    Inr (length pre + length b + 3,
         r @ slice (pre @ b @ d # d # d # rest) sp (length pre + length b))"
  using assms
proof (induction b arbitrary: pre)
  case Nil
  have "slice (pre @ d # d # d # rest) (length pre + 1) (length pre + 3) = [d, d]"
    by (simp add: slice_def)
  then show ?case
    by (simp add: parse_string_loop.simps [of "pre @ d # d # d # rest" "length pre"]
        nth_append replicate_2)
next
  case (Cons c b)
  let ?src = "pre @ (c # b) @ d # d # d # rest"
  note sb = string_body_Cons(1,2) [OF Cons.prems]
    string_body_Cons(3) [OF Cons.prems, where rest = rest]
  have sl: "slice ?src (length pre + 1) (length pre + 3) = take 2 (b @ d # d # d # rest)"
    by (simp add: slice_def)
  have "parse_string_loop ?src (length pre) d 3 eo pe r sp =
      parse_string_loop ?src (length pre + 1) d 3 eo pe r sp"
  proof (cases "c = d")
    case True
    with sb(3) sl have "slice ?src (length pre + 1) (length pre + 3) \<noteq> replicate (3 - 1) d"
      by (simp add: replicate_2)
    with True show ?thesis
      by (subst parse_string_loop.simps) (simp add: nth_append)
  next
    case False
    with sb(2) show ?thesis
      by (subst parse_string_loop.simps) (auto simp: nth_append)
  qed
  also have "\<dots> = parse_string_loop ((pre @ [c]) @ b @ d # d # d # rest)
      (length (pre @ [c])) d 3 eo pe r sp" by simp
  also have "\<dots> = Inr (length (pre @ [c]) + length b + 3,
      r @ slice ((pre @ [c]) @ b @ d # d # d # rest) sp (length (pre @ [c]) + length b))"
    by (rule Cons.IH [OF sb(1)])
  finally show ?case by simp
qed

definition multiline_delim :: "bool \<Rightarrow> uchar" where
  "multiline_delim literal = (if literal then 39 else 34)"

definition multiline_body :: "bool \<Rightarrow> ustr \<Rightarrow> bool" where
  "multiline_body literal b =
     string_body (multiline_delim literal)
       (if literal then ILLEGAL_MULTILINE_LITERAL_STR_CHARS
        else ILLEGAL_MULTILINE_BASIC_STR_CHARS)
       (if literal then None else Some Basic_str_escape_multiline) b"

lemma parse_multiline_str_body:
  fixes literal :: bool
  defines "d \<equiv> multiline_delim literal"
  assumes body: "multiline_body literal b"
    and nl: "nl = [10] \<or> (nl = [] \<and> (b = [] \<or> hd b \<noteq> 10))"
    and k: "k \<le> 2"
    and rest: "k < 2 \<longrightarrow> rest = [] \<or> hd rest \<noteq> d"
  shows "parse_multiline_str
           (pre @ replicate 3 d @ nl @ b @ replicate 3 d @ replicate k d @ rest)
           (length pre) literal =
         Inr (length pre + 3 + length nl + length b + 3 + k, b @ replicate k d)"
proof -
  define eo where "eo = (if literal then ILLEGAL_MULTILINE_LITERAL_STR_CHARS
                         else ILLEGAL_MULTILINE_BASIC_STR_CHARS)"
  define pe where "pe = (if literal then None else Some Basic_str_escape_multiline)"
  define P where "P = pre @ replicate 3 d @ nl"
  define R where "R = replicate k d @ rest"
  define src where "src = P @ b @ d # d # d # R"
  have src: "pre @ replicate 3 d @ nl @ b @ replicate 3 d @ replicate k d @ rest = src"
    by (simp add: src_def P_def R_def numeral_3_eq_3)
  have d10: "d \<noteq> 10" by (simp add: d_def multiline_delim_def)
  have lenP: "length P = length pre + 3 + length nl" by (simp add: P_def)
  have "slice src (length pre + 3) (length pre + 3 + 1) = take 1 (nl @ b @ d # d # d # R)"
    by (simp add: src_def P_def slice_def)
  also have "\<dots> = [10] \<longleftrightarrow> nl = [10]"
    using nl d10 by (cases b) auto
  finally have first: "slice src (length pre + 3) (length pre + 3 + 1) = [10] \<longleftrightarrow> nl = [10]" .
  have start: "(if slice src (length pre + 3) (length pre + 3 + 1) = [10]
                then length pre + 3 + 1 else length pre + 3) = length P"
    unfolding first using nl by (auto simp: lenP)
  have "string_body d eo pe b"
    using body by (simp add: multiline_body_def d_def eo_def pe_def)
  then have "parse_string_loop src (length P) d 3 eo pe [] (length P) =
      Inr (length P + length b + 3, [] @ slice src (length P) (length P + length b))"
    unfolding src_def by (rule parse_string_loop_body)
  moreover have "slice src (length P) (length P + length b) = b"
    by (simp add: src_def slice_def)
  ultimately have body: "parse_string src (length P) d 3 eo pe =
      Inr (length P + length b + 3, b)"
    by (simp add: parse_string_def)
  define p where "p = length P + length b + 3"
  have p: "p = length (P @ b @ [d, d, d])" by (simp add: p_def)
  have srcp: "src = (P @ b @ [d, d, d]) @ R" by (simp add: src_def)
  have t1: "slice src p (p + 1) = take 1 R"
    unfolding p srcp by (simp add: slice_def)
  have t2: "slice src (p + 1) (p + 2) = take 1 (drop 1 R)"
    unfolding p srcp by (simp add: slice_def)
  have tail: "(if slice src p (p + 1) \<noteq> [d] then Inr (p, b)
               else if slice src (p + 1) (p + 2) \<noteq> [d] then Inr (p + 1, b @ [d])
               else Inr (p + 2, b @ replicate 2 d)) = Inr (p + k, b @ replicate k d)"
  proof -
    from k have "k = 0 \<or> k = 1 \<or> k = 2" by auto
    then show ?thesis
    proof (elim disjE)
      assume "k = 0"
      with rest show ?thesis unfolding t1 t2 by (cases rest) (auto simp: R_def)
    next
      assume "k = 1"
      with rest show ?thesis unfolding t1 t2 by (cases rest) (auto simp: R_def)
    next
      assume "k = 2"
      then show ?thesis unfolding t1 t2 by (simp add: R_def numeral_2_eq_2)
    qed
  qed
  have pm: "parse_multiline_str src (length pre) literal =
      (case parse_string src (length P) d 3 eo pe of
         Inl e \<Rightarrow> Inl e
       | Inr (pos, result) \<Rightarrow>
           if slice src pos (pos + 1) \<noteq> [d] then Inr (pos, result)
           else if slice src (pos + 1) (pos + 2) \<noteq> [d] then Inr (pos + 1, result @ [d])
           else Inr (pos + 2, result @ replicate 2 d))"
    unfolding parse_multiline_str_def Let_def start d_def multiline_delim_def eo_def pe_def ..
  have "parse_multiline_str src (length pre) literal = Inr (p + k, b @ replicate k d)"
    unfolding pm body sum.case prod.case p_def [symmetric] by (rule tail)
  then show ?thesis unfolding src by (simp add: p_def lenP)
qed

lemma four_apostrophes_document:
  "loads 3 toml_re keep_text (str ''x = '' @ [39, 39, 39, 10] @ str ''ab'' @ [39, 39, 39, 39]) =
     Some (Inr [(str ''x'', VStr (str ''ab'' @ [39]))])"
  by code_simp

lemma five_apostrophes_document:
  "loads 3 toml_re keep_text
     (str ''x = '' @ [39, 39, 39, 10] @ str ''ab'' @ [39, 39, 39, 39, 39]) =
     Some (Inr [(str ''x'', VStr (str ''ab'' @ [39, 39]))])"
  by code_simp

lemma five_quotes_document:
  "loads 3 toml_re keep_text
     (str ''x = '' @ [34, 34, 34, 10] @ str ''ab'' @ [34, 34, 34, 34, 34]) =
     Some (Inr [(str ''x'', VStr (str ''ab'' @ [34, 34]))])"
  by code_simp

text \<open>
  The text between two positions, read as the content of a string: every character
  stands for itself and, where escapes are parsed, a backslash with what follows it
  for what the escape parser returns. There is no content where a character of
  \<open>error_on\<close> stands, where the escape parser raises, or where three delimiters in a
  row begin before the end position.
\<close>

function decode_body ::
  "ustr \<Rightarrow> uchar \<Rightarrow> uchar set \<Rightarrow> escape_parser option \<Rightarrow> Pos \<Rightarrow> Pos \<Rightarrow> ustr option" where
  "decode_body src d eo pe i q =
     (if i = q then Some []
      else if i \<ge> length src then None
      else if src ! i = d then
        (if slice src (i + 1) (i + 3) = [d, d] then None
         else map_option (\<lambda>v. d # v) (decode_body src d eo pe (i + 1) q))
      else if pe \<noteq> None \<and> src ! i = 92 then
        (case call_escape_parser (the pe) src i of
           Inl e \<Rightarrow> None
         | Inr (p, s) \<Rightarrow> map_option (\<lambda>v. s @ v) (decode_body src d eo pe p q))
      else if src ! i \<in> eo then None
      else map_option (\<lambda>v. src ! i # v) (decode_body src d eo pe (i + 1) q))"
  by pat_completeness auto
termination
proof (relation "measure (\<lambda>(src, d, eo, pe, i, q). length src - i)")
  show "wf (measure (\<lambda>(src, d, eo, pe, i, q). length src - i))" by simp
qed (auto dest: call_escape_parser_gt)

declare decode_body.simps [simp del]

lemma decode_body_le: "decode_body src d eo pe i q = Some v \<Longrightarrow> i \<le> q"
proof (induction src d eo pe i q arbitrary: v rule: decode_body.induct)
  case (1 src d eo pe i q)
  show ?case
  proof (cases "i = q")
    case True
    then show ?thesis by simp
  next
    case False
    with "1.prems" have inside: "\<not> length src \<le> i"
      by (subst (asm) decode_body.simps) (simp split: if_splits)
    show ?thesis
    proof (cases "src ! i = d")
      case True
      with "1.prems" False inside obtain w where
        ns: "slice src (i + 1) (i + 3) \<noteq> [d, d]"
        and w: "decode_body src d eo pe (i + 1) q = Some w"
        by (subst (asm) decode_body.simps) (auto split: if_splits)
      from "1.IH"(1) [OF False inside True ns w] show ?thesis by simp
    next
      case nd: False
      show ?thesis
      proof (cases "pe \<noteq> None \<and> src ! i = 92")
        case True
        with "1.prems" False inside nd obtain p s w where
          c: "call_escape_parser (the pe) src i = Inr (p, s)"
          and w: "decode_body src d eo pe p q = Some w"
          by (subst (asm) decode_body.simps) (auto split: if_splits sum.splits)
        from "1.IH"(2) [OF False inside nd True c refl w] call_escape_parser_gt [OF c]
        show ?thesis by simp
      next
        case ne: False
        with "1.prems" False inside nd obtain w where
          ni: "src ! i \<notin> eo"
          and w: "decode_body src d eo pe (i + 1) q = Some w"
          by (subst (asm) decode_body.simps) (auto split: if_splits)
        from "1.IH"(3) [OF False inside nd ne ni w] show ?thesis by simp
      qed
    qed
  qed
qed

lemma slice_closing:
  "slice src q (q + 3) = [d, d, d] \<longleftrightarrow>
     q < length src \<and> src ! q = d \<and> slice src (q + 1) (q + 3) = [d, d]"
proof (cases "q < length src")
  case True
  then have "drop q src = src ! q # drop (Suc q) src" by (simp add: Cons_nth_drop_Suc)
  then show ?thesis using True by (auto simp: slice_def numeral_3_eq_3 numeral_2_eq_2)
next
  case False
  then show ?thesis by (simp add: slice_def)
qed

lemma slice_snoc:
  assumes "sp \<le> i" "i < length src"
  shows "slice src sp (i + 1) = slice src sp i @ [src ! i]"
proof -
  from assms have "Suc i - sp = Suc (i - sp)" by simp
  moreover from assms have "i - sp < length (drop sp src)" by simp
  ultimately show ?thesis
    using assms by (simp add: slice_def take_Suc_conv_app_nth)
qed

lemma slice_empty: "slice src p p = []"
  by (simp add: slice_def)

lemma decode_body_parse_string_loop:
  assumes "decode_body src d eo pe i q = Some v"
    and "slice src q (q + 3) = [d, d, d]"
    and "sp \<le> i"
  shows "parse_string_loop src i d 3 eo pe r sp = Inr (q + 3, r @ slice src sp i @ v)"
  using assms
proof (induction src d eo pe i q arbitrary: v r sp rule: decode_body.induct)
  case (1 src d eo pe i q)
  from "1.prems"(2) have q: "q < length src" "src ! q = d" "slice src (q + 1) (q + 3) = [d, d]"
    by (simp_all add: slice_closing)
  show ?case
  proof (cases "i = q")
    case True
    with "1.prems"(1) have "v = []" by (subst (asm) decode_body.simps) simp
    with True q show ?thesis
      by (subst parse_string_loop.simps) (simp add: replicate_2)
  next
    case False
    with "1.prems"(1) have inside: "\<not> length src \<le> i"
      by (subst (asm) decode_body.simps) (simp split: if_splits)
    then have il: "i < length src" by simp
    note sn = slice_snoc [OF "1.prems"(3) il]
    show ?thesis
    proof (cases "src ! i = d")
      case True
      with "1.prems"(1) False inside obtain w where
        ns: "slice src (i + 1) (i + 3) \<noteq> [d, d]"
        and w: "decode_body src d eo pe (i + 1) q = Some w" and v: "v = d # w"
        by (subst (asm) decode_body.simps) (auto split: if_splits)
      from "1.prems"(3) have "sp \<le> i + 1" by simp
      from "1.IH"(1) [OF False inside True ns w "1.prems"(2) this]
      have "parse_string_loop src (i + 1) d 3 eo pe r sp
          = Inr (q + 3, r @ slice src sp (i + 1) @ w)" .
      with True ns inside v sn show ?thesis
        by (subst parse_string_loop.simps) (simp add: replicate_2)
    next
      case nd: False
      show ?thesis
      proof (cases "pe \<noteq> None \<and> src ! i = 92")
        case True
        with "1.prems"(1) False inside nd obtain p s w where
          c: "call_escape_parser (the pe) src i = Inr (p, s)"
          and w: "decode_body src d eo pe p q = Some w" and v: "v = s @ w"
          by (subst (asm) decode_body.simps) (auto split: if_splits sum.splits)
        from "1.IH"(2) [OF False inside nd True c refl w "1.prems"(2) order_refl]
        have "parse_string_loop src p d 3 eo pe ((r @ slice src sp i) @ s) p
          = Inr (q + 3, ((r @ slice src sp i) @ s) @ slice src p p @ w)" .
        with True nd inside c v show ?thesis
          by (subst parse_string_loop.simps) (simp add: slice_empty)
      next
        case ne: False
        with "1.prems"(1) False inside nd obtain w where
          ni: "src ! i \<notin> eo"
          and w: "decode_body src d eo pe (i + 1) q = Some w" and v: "v = src ! i # w"
          by (subst (asm) decode_body.simps) (auto split: if_splits)
        from "1.prems"(3) have "sp \<le> i + 1" by simp
        from "1.IH"(3) [OF False inside nd ne ni w "1.prems"(2) this]
        have "parse_string_loop src (i + 1) d 3 eo pe r sp
          = Inr (q + 3, r @ slice src sp (i + 1) @ w)" .
        with ne nd ni inside v sn show ?thesis
          by (subst parse_string_loop.simps) auto
      qed
    qed
  qed
qed

lemma parse_string_loop_decode_body:
  assumes "parse_string_loop src i d 3 eo pe r sp = Inr (p, s)"
    and "sp \<le> i"
  shows "\<exists>q v. decode_body src d eo pe i q = Some v \<and> slice src q (q + 3) = [d, d, d]
    \<and> p = q + 3 \<and> s = r @ slice src sp i @ v"
  using assms
proof (induction src i d "3 :: nat" eo pe r sp rule: parse_string_loop.induct)
  case (1 src i d eo pe r sp)
  from "1.prems"(1) have inside: "\<not> length src \<le> i"
    by (subst (asm) parse_string_loop.simps) (simp split: if_splits)
  then have il: "i < length src" by simp
  note sn = slice_snoc [OF "1.prems"(2) il]
  show ?case
  proof (cases "src ! i = d")
    case True
    show ?thesis
    proof (cases "slice src (i + 1) (i + 3) = [d, d]")
      case cl: True
      with "1.prems"(1) inside True have "p = i + 3 \<and> s = r @ slice src sp i"
        by (subst (asm) parse_string_loop.simps) (simp add: replicate_2)
      moreover have "decode_body src d eo pe i i = Some []"
        by (subst decode_body.simps) simp
      moreover from cl il True have "slice src i (i + 3) = [d, d, d]"
        by (simp add: slice_closing)
      ultimately show ?thesis by auto
    next
      case ns: False
      with "1.prems"(1) inside True have
        l: "parse_string_loop src (i + 1) d 3 eo pe r sp = Inr (p, s)"
        by (subst (asm) parse_string_loop.simps) (simp add: replicate_2)
      from "1.prems"(2) have "sp \<le> i + 1" by simp
      from "1.hyps"(1) [OF inside refl True _ l this] ns obtain q v where
        dv: "decode_body src d eo pe (i + 1) q = Some v"
        and rest: "slice src q (q + 3) = [d, d, d]" "p = q + 3"
          "s = r @ slice src sp (i + 1) @ v"
        by (auto simp: replicate_2)
      from decode_body_le [OF dv] have "i \<noteq> q" by simp
      with dv inside True ns have "decode_body src d eo pe i q = Some (d # v)"
        by (subst decode_body.simps) simp
      with rest sn True show ?thesis by auto
    qed
  next
    case nd: False
    show ?thesis
    proof (cases "pe \<noteq> None \<and> src ! i = 92")
      case True
      with "1.prems"(1) inside nd obtain p' e where
        c: "call_escape_parser (the pe) src i = Inr (p', e)"
        and l: "parse_string_loop src p' d 3 eo pe ((r @ slice src sp i) @ e) p' = Inr (p, s)"
        by (subst (asm) parse_string_loop.simps) (auto split: sum.splits)
      from "1.hyps"(2) [OF inside refl nd True c refl l order_refl] obtain q v where
        dv: "decode_body src d eo pe p' q = Some v"
        and rest: "slice src q (q + 3) = [d, d, d]" "p = q + 3"
          "s = ((r @ slice src sp i) @ e) @ slice src p' p' @ v"
        by auto
      from decode_body_le [OF dv] call_escape_parser_gt [OF c] have "i \<noteq> q" by simp
      with dv inside nd True c have "decode_body src d eo pe i q = Some (e @ v)"
        by (subst decode_body.simps) simp
      with rest show ?thesis by (auto simp: slice_empty)
    next
      case ne: False
      with "1.prems"(1) inside nd have "src ! i \<notin> eo
          \<and> parse_string_loop src (i + 1) d 3 eo pe r sp = Inr (p, s)"
        by (subst (asm) parse_string_loop.simps) (auto simp: Let_def split: if_splits)
      then have ni: "src ! i \<notin> eo"
        and l: "parse_string_loop src (i + 1) d 3 eo pe r sp = Inr (p, s)"
        by simp_all
      from "1.prems"(2) have "sp \<le> i + 1" by simp
      from "1.hyps"(3) [OF inside refl nd ne ni l this] obtain q v where
        dv: "decode_body src d eo pe (i + 1) q = Some v"
        and rest: "slice src q (q + 3) = [d, d, d]" "p = q + 3"
          "s = r @ slice src sp (i + 1) @ v"
        by auto
      from decode_body_le [OF dv] have "i \<noteq> q" by simp
      with dv inside nd ne ni have "decode_body src d eo pe i q = Some (src ! i # v)"
        by (subst decode_body.simps) auto
      with rest sn show ?thesis by auto
    qed
  qed
qed

text \<open>
  The content of a multi-line string starts after the three opening characters and
  after the newline that may follow them; \<open>extra_delims\<close> counts the delimiter
  characters at a position, up to two.
\<close>

definition multiline_start :: "ustr \<Rightarrow> Pos \<Rightarrow> Pos" where
  "multiline_start src pos = (if slice src (pos + 3) (pos + 4) = [10] then pos + 4 else pos + 3)"

definition multiline_content :: "bool \<Rightarrow> ustr \<Rightarrow> Pos \<Rightarrow> Pos \<Rightarrow> ustr option" where
  "multiline_content literal src i q =
     decode_body src (multiline_delim literal)
       (if literal then ILLEGAL_MULTILINE_LITERAL_STR_CHARS
        else ILLEGAL_MULTILINE_BASIC_STR_CHARS)
       (if literal then None else Some Basic_str_escape_multiline) i q"

definition extra_delims :: "ustr \<Rightarrow> uchar \<Rightarrow> Pos \<Rightarrow> nat" where
  "extra_delims src d p =
     (if slice src p (p + 1) \<noteq> [d] then 0
      else if slice src (p + 1) (p + 2) \<noteq> [d] then 1 else 2)"

lemma parse_multiline_str_unfold:
  "parse_multiline_str src pos literal =
     (case parse_string src (multiline_start src pos) (multiline_delim literal) 3
             (if literal then ILLEGAL_MULTILINE_LITERAL_STR_CHARS
              else ILLEGAL_MULTILINE_BASIC_STR_CHARS)
             (if literal then None else Some Basic_str_escape_multiline) of
        Inl e \<Rightarrow> Inl e
      | Inr (p, r) \<Rightarrow>
          Inr (p + extra_delims src (multiline_delim literal) p,
               r @ replicate (extra_delims src (multiline_delim literal) p)
                     (multiline_delim literal)))"
proof -
  have 4: "pos + 3 + 1 = pos + 4" by simp
  show ?thesis
    unfolding parse_multiline_str_def Let_def multiline_start_def 4
    by (cases literal)
      (auto simp: multiline_delim_def extra_delims_def replicate_2 split: sum.splits)
qed

lemma multiline_content_value:
  assumes c: "multiline_content literal src (multiline_start src pos) q = Some v"
    and cl: "slice src q (q + 3) = replicate 3 (multiline_delim literal)"
  shows "parse_multiline_str src pos literal =
    Inr (q + 3 + extra_delims src (multiline_delim literal) (q + 3),
         v @ replicate (extra_delims src (multiline_delim literal) (q + 3))
               (multiline_delim literal))"
proof -
  from decode_body_parse_string_loop
    [OF c [unfolded multiline_content_def] cl [unfolded replicate_3] order_refl, of "[]"]
  show ?thesis
    unfolding parse_multiline_str_unfold parse_string_def by (simp add: slice_empty)
qed

lemma parse_multiline_str_content:
  assumes "parse_multiline_str src pos literal = Inr (p, s)"
  shows "\<exists>q v. multiline_content literal src (multiline_start src pos) q = Some v
    \<and> slice src q (q + 3) = replicate 3 (multiline_delim literal)
    \<and> p = q + 3 + extra_delims src (multiline_delim literal) (q + 3)
    \<and> s = v @ replicate (extra_delims src (multiline_delim literal) (q + 3))
                 (multiline_delim literal)"
proof -
  define d where "d = multiline_delim literal"
  define eo where "eo = (if literal then ILLEGAL_MULTILINE_LITERAL_STR_CHARS
                         else ILLEGAL_MULTILINE_BASIC_STR_CHARS)"
  define pe where "pe = (if literal then None else Some Basic_str_escape_multiline)"
  define start where "start = multiline_start src pos"
  from assms obtain p0 r0 where
    ps: "parse_string_loop src start d 3 eo pe [] start = Inr (p0, r0)"
    and p: "p = p0 + extra_delims src d p0" and s: "s = r0 @ replicate (extra_delims src d p0) d"
    unfolding parse_multiline_str_unfold parse_string_def d_def eo_def pe_def start_def
    by (auto split: sum.splits)
  from parse_string_loop_decode_body [OF ps order_refl] obtain q v where
    "decode_body src d eo pe start q = Some v" "slice src q (q + 3) = [d, d, d]"
    "p0 = q + 3" "r0 = v"
    by (auto simp: slice_empty)
  with p s show ?thesis
    unfolding multiline_content_def d_def [symmetric] eo_def [symmetric] pe_def [symmetric]
      start_def [symmetric]
    by (auto simp: replicate_3)
qed

lemma escapes_and_four_quotes_document:
  "loads 3 toml_re keep_text
     (str ''x = '' @ [34, 34, 34, 10] @ str ''a'' @ [92, 110] @ str ''b''
        @ [92, 10, 32, 32] @ str ''c'' @ [34, 34, 34, 34]) =
     Some (Inr [(str ''x'', VStr (str ''a'' @ [10] @ str ''bc'' @ [34]))])"
  by code_simp

lemma escapes_example:
  "multiline_content False
     (str ''x = '' @ [34, 34, 34, 10] @ str ''a'' @ [92, 110] @ str ''b''
        @ [92, 10, 32, 32] @ str ''c'' @ [34, 34, 34, 34])
     (multiline_start
        (str ''x = '' @ [34, 34, 34, 10] @ str ''a'' @ [92, 110] @ str ''b''
           @ [92, 10, 32, 32] @ str ''c'' @ [34, 34, 34, 34]) 4) 17
    = Some (str ''a'' @ [10] @ str ''bc'')"
  "slice (str ''x = '' @ [34, 34, 34, 10] @ str ''a'' @ [92, 110] @ str ''b''
        @ [92, 10, 32, 32] @ str ''c'' @ [34, 34, 34, 34]) 17 (17 + 3)
    = replicate 3 (multiline_delim False)"
  "extra_delims (str ''x = '' @ [34, 34, 34, 10] @ str ''a'' @ [92, 110] @ str ''b''
        @ [92, 10, 32, 32] @ str ''c'' @ [34, 34, 34, 34]) (multiline_delim False) (17 + 3) = 1"
  "parse_multiline_str
     (str ''x = '' @ [39, 39, 39] @ str ''a'' @ [92] @ str ''b'' @ [39, 39, 39, 39, 39]) 4 True
    = Inr (15, str ''a'' @ [92] @ str ''b'' @ [39, 39])"
  by code_simp+

lemma example_bodies:
  "multiline_body True (str ''a'' @ [39, 39] @ str ''b'')
    \<and> multiline_body False (str ''a'' @ [10] @ str ''b'')"
  by (simp add: multiline_body_def string_body_def multiline_delim_def str_def
      ILLEGAL_MULTILINE_LITERAL_STR_CHARS_def ILLEGAL_MULTILINE_BASIC_STR_CHARS_def
      ASCII_CTRL_def)

text \<open>
  C9. In a multi-line string, basic or literal, a newline right after the opening
  three delimiters is not part of the value, and up to two delimiter characters after
  the closing three are. For every text and position: the content starts at
  \<open>multiline_start\<close>, which is after the three opening characters and after a newline
  that follows them. If the text from there up to \<open>q\<close> is the content \<open>v\<close> (escapes
  of a basic string included) and three delimiters stand at \<open>q\<close>, then
  \<open>parse_multiline_str\<close> returns \<open>v\<close> followed by \<open>k\<close> delimiters and the position
  after them, where \<open>k\<close>, at most two, is the number of delimiters that follow the
  closing three. Every value that \<open>parse_multiline_str\<close> returns is of this form. For
  a body \<open>b\<close> without escapes this reads: the text of three delimiters, a newline or
  nothing, \<open>b\<close> (in which no three delimiters in a row begin, and which does not begin
  with a newline if none was put before it), three delimiters and \<open>k\<close> more, has the
  value \<open>b\<close> followed by \<open>k\<close> delimiters. So a literal that ends in four apostrophes
  has a value that ends in one, one that ends in five has a value that ends in two,
  and a basic string with a \<open>\n\<close> escape, a line-ending backslash and four closing
  quotes has the unescaped text and one quote as its value.
\<close>

theorem multiline_string_newline_and_closing_delimiters:
  "(multiline_content literal src (multiline_start src pos) q = Some v
      \<and> slice src q (q + 3) = replicate 3 (multiline_delim literal)
    \<longrightarrow> parse_multiline_str src pos literal =
        Inr (q + 3 + extra_delims src (multiline_delim literal) (q + 3),
             v @ replicate (extra_delims src (multiline_delim literal) (q + 3))
                   (multiline_delim literal)))
   \<and> (parse_multiline_str src pos literal = Inr (p, s)
    \<longrightarrow> (\<exists>q v. multiline_content literal src (multiline_start src pos) q = Some v
          \<and> slice src q (q + 3) = replicate 3 (multiline_delim literal)
          \<and> p = q + 3 + extra_delims src (multiline_delim literal) (q + 3)
          \<and> s = v @ replicate (extra_delims src (multiline_delim literal) (q + 3))
                       (multiline_delim literal)))
   \<and> extra_delims src (multiline_delim literal) p \<le> 2
   \<and> (multiline_body literal b \<and> (nl = [10] \<or> (nl = [] \<and> (b = [] \<or> hd b \<noteq> 10)))
      \<and> k \<le> 2 \<and> (k < 2 \<longrightarrow> rest = [] \<or> hd rest \<noteq> multiline_delim literal)
    \<longrightarrow> parse_multiline_str
           (pre @ replicate 3 (multiline_delim literal) @ nl @ b
              @ replicate 3 (multiline_delim literal) @ replicate k (multiline_delim literal)
              @ rest)
           (length pre) literal =
         Inr (length pre + 3 + length nl + length b + 3 + k,
              b @ replicate k (multiline_delim literal)))
   \<and> loads (n + 3) toml_re keep_text
          (str ''x = '' @ [39, 39, 39, 10] @ str ''ab'' @ [39, 39, 39, 39]) =
        Some (Inr [(str ''x'', VStr (str ''ab'' @ [39]))])
   \<and> loads (n + 3) toml_re keep_text
          (str ''x = '' @ [39, 39, 39, 10] @ str ''ab'' @ [39, 39, 39, 39, 39]) =
        Some (Inr [(str ''x'', VStr (str ''ab'' @ [39, 39]))])
   \<and> loads (n + 3) toml_re keep_text
          (str ''x = '' @ [34, 34, 34, 10] @ str ''ab'' @ [34, 34, 34, 34, 34]) =
        Some (Inr [(str ''x'', VStr (str ''ab'' @ [34, 34]))])
   \<and> loads (n + 3) toml_re keep_text
          (str ''x = '' @ [34, 34, 34, 10] @ str ''a'' @ [92, 110] @ str ''b''
             @ [92, 10, 32, 32] @ str ''c'' @ [34, 34, 34, 34]) =
        Some (Inr [(str ''x'', VStr (str ''a'' @ [10] @ str ''bc'' @ [34]))])"
proof (intro conjI impI)
  show "parse_multiline_str src pos literal =
        Inr (q + 3 + extra_delims src (multiline_delim literal) (q + 3),
             v @ replicate (extra_delims src (multiline_delim literal) (q + 3))
                   (multiline_delim literal))"
    if "multiline_content literal src (multiline_start src pos) q = Some v
      \<and> slice src q (q + 3) = replicate 3 (multiline_delim literal)"
    using that by (elim conjE) (rule multiline_content_value)
  show "\<exists>q v. multiline_content literal src (multiline_start src pos) q = Some v
          \<and> slice src q (q + 3) = replicate 3 (multiline_delim literal)
          \<and> p = q + 3 + extra_delims src (multiline_delim literal) (q + 3)
          \<and> s = v @ replicate (extra_delims src (multiline_delim literal) (q + 3))
                       (multiline_delim literal)"
    if "parse_multiline_str src pos literal = Inr (p, s)"
    using that by (rule parse_multiline_str_content)
  show "extra_delims src (multiline_delim literal) p \<le> 2"
    by (simp add: extra_delims_def)
  show "parse_multiline_str
           (pre @ replicate 3 (multiline_delim literal) @ nl @ b
              @ replicate 3 (multiline_delim literal) @ replicate k (multiline_delim literal)
              @ rest)
           (length pre) literal =
         Inr (length pre + 3 + length nl + length b + 3 + k,
              b @ replicate k (multiline_delim literal))"
    if "multiline_body literal b \<and> (nl = [10] \<or> (nl = [] \<and> (b = [] \<or> hd b \<noteq> 10)))
      \<and> k \<le> 2 \<and> (k < 2 \<longrightarrow> rest = [] \<or> hd rest \<noteq> multiline_delim literal)"
    using that by (elim conjE) (rule parse_multiline_str_body)
  show "loads (n + 3) toml_re keep_text
          (str ''x = '' @ [39, 39, 39, 10] @ str ''ab'' @ [39, 39, 39, 39]) =
        Some (Inr [(str ''x'', VStr (str ''ab'' @ [39]))])"
    by (rule loads_mono [OF four_apostrophes_document]) simp
  show "loads (n + 3) toml_re keep_text
          (str ''x = '' @ [39, 39, 39, 10] @ str ''ab'' @ [39, 39, 39, 39, 39]) =
        Some (Inr [(str ''x'', VStr (str ''ab'' @ [39, 39]))])"
    by (rule loads_mono [OF five_apostrophes_document]) simp
  show "loads (n + 3) toml_re keep_text
          (str ''x = '' @ [34, 34, 34, 10] @ str ''ab'' @ [34, 34, 34, 34, 34]) =
        Some (Inr [(str ''x'', VStr (str ''ab'' @ [34, 34]))])"
    by (rule loads_mono [OF five_quotes_document]) simp
  show "loads (n + 3) toml_re keep_text
          (str ''x = '' @ [34, 34, 34, 10] @ str ''a'' @ [92, 110] @ str ''b''
             @ [92, 10, 32, 32] @ str ''c'' @ [34, 34, 34, 34]) =
        Some (Inr [(str ''x'', VStr (str ''a'' @ [10] @ str ''bc'' @ [34]))])"
    by (rule loads_mono [OF escapes_and_four_quotes_document]) simp
qed

theorem multiline_string_newline_and_closing_delimiters_witness:
  "parse_multiline_str
     (str ''x = '' @ [34, 34, 34, 10] @ str ''a'' @ [92, 110] @ str ''b''
        @ [92, 10, 32, 32] @ str ''c'' @ [34, 34, 34, 34]) 4 False
     = Inr (17 + 3 + 1, str ''a'' @ [10] @ str ''bc'' @ replicate 1 (multiline_delim False))
   \<and> (\<exists>q v. multiline_content True
          (str ''x = '' @ [39, 39, 39] @ str ''a'' @ [92] @ str ''b'' @ [39, 39, 39, 39, 39])
          (multiline_start
            (str ''x = '' @ [39, 39, 39] @ str ''a'' @ [92] @ str ''b'' @ [39, 39, 39, 39, 39])
            4) q = Some v
        \<and> 15 = q + 3 + extra_delims
            (str ''x = '' @ [39, 39, 39] @ str ''a'' @ [92] @ str ''b'' @ [39, 39, 39, 39, 39])
            (multiline_delim True) (q + 3))
   \<and> parse_multiline_str
     (str ''x = '' @ [39, 39, 39, 10] @ str ''a'' @ [39, 39] @ str ''b'' @ [39, 39, 39, 39])
     (length (str ''x = '')) True = Inr (16, str ''a'' @ [39, 39] @ str ''b'' @ [39])
   \<and> parse_multiline_str
     (str ''x = '' @ [34, 34, 34] @ str ''a'' @ [10] @ str ''b'' @ [34, 34, 34, 34, 34]
        @ str '' # c'')
     (length (str ''x = '')) False = Inr (15, str ''a'' @ [10] @ str ''b'' @ [34, 34])"
proof (intro conjI)
  show "parse_multiline_str
     (str ''x = '' @ [34, 34, 34, 10] @ str ''a'' @ [92, 110] @ str ''b''
        @ [92, 10, 32, 32] @ str ''c'' @ [34, 34, 34, 34]) 4 False
     = Inr (17 + 3 + 1, str ''a'' @ [10] @ str ''bc'' @ replicate 1 (multiline_delim False))"
    using multiline_string_newline_and_closing_delimiters
      [where literal = False
        and src = "str ''x = '' @ [34, 34, 34, 10] @ str ''a'' @ [92, 110] @ str ''b''
           @ [92, 10, 32, 32] @ str ''c'' @ [34, 34, 34, 34]"
        and pos = 4 and q = 17 and v = "str ''a'' @ [10] @ str ''bc''", THEN conjunct1]
      escapes_example(1,2,3)
    by simp
  show "\<exists>q v. multiline_content True
          (str ''x = '' @ [39, 39, 39] @ str ''a'' @ [92] @ str ''b'' @ [39, 39, 39, 39, 39])
          (multiline_start
            (str ''x = '' @ [39, 39, 39] @ str ''a'' @ [92] @ str ''b'' @ [39, 39, 39, 39, 39])
            4) q = Some v
        \<and> 15 = q + 3 + extra_delims
            (str ''x = '' @ [39, 39, 39] @ str ''a'' @ [92] @ str ''b'' @ [39, 39, 39, 39, 39])
            (multiline_delim True) (q + 3)"
    using multiline_string_newline_and_closing_delimiters
      [where literal = True
        and src = "str ''x = '' @ [39, 39, 39] @ str ''a'' @ [92] @ str ''b''
           @ [39, 39, 39, 39, 39]"
        and pos = 4 and p = 15 and s = "str ''a'' @ [92] @ str ''b'' @ [39, 39]",
        THEN conjunct2, THEN conjunct1]
      escapes_example(4)
    by blast
  show "parse_multiline_str
     (str ''x = '' @ [39, 39, 39, 10] @ str ''a'' @ [39, 39] @ str ''b'' @ [39, 39, 39, 39])
     (length (str ''x = '')) True = Inr (16, str ''a'' @ [39, 39] @ str ''b'' @ [39])"
    using multiline_string_newline_and_closing_delimiters
      [where literal = True and b = "str ''a'' @ [39, 39] @ str ''b''" and nl = "[10]"
        and k = 1 and rest = "[]" and pre = "str ''x = ''",
        THEN conjunct2, THEN conjunct2, THEN conjunct2, THEN conjunct1]
      example_bodies
    by (simp add: multiline_delim_def str_def replicate_2 replicate_3)
  show "parse_multiline_str
     (str ''x = '' @ [34, 34, 34] @ str ''a'' @ [10] @ str ''b'' @ [34, 34, 34, 34, 34]
        @ str '' # c'')
     (length (str ''x = '')) False = Inr (15, str ''a'' @ [10] @ str ''b'' @ [34, 34])"
    using multiline_string_newline_and_closing_delimiters
      [where literal = False and b = "str ''a'' @ [10] @ str ''b''" and nl = "[]"
        and k = 2 and rest = "str '' # c''" and pre = "str ''x = ''",
        THEN conjunct2, THEN conjunct2, THEN conjunct2, THEN conjunct1]
      example_bodies
    by (simp add: multiline_delim_def str_def replicate_2 replicate_3)
qed

section \<open>Blank lines and comments\<close>

text \<open>
  A text of blank lines and comments only, read from the start of a line or from inside
  a comment: spaces, tabs and newlines, and comments from \<open>#\<close> to the end of the line
  that hold no control character other than a tab.
\<close>

fun blank :: "bool \<Rightarrow> ustr \<Rightarrow> bool" where
  "blank in_comment [] = True"
| "blank False (c # cs) =
     (if c \<in> TOML_WS \<or> c = 10 then blank False cs
      else if c = ord CHR ''#'' then blank True cs
      else False)"
| "blank True (c # cs) =
     (if c = 10 then blank False cs
      else c \<notin> ILLEGAL_COMMENT_CHARS \<and> blank True cs)"

text \<open>The same for a text in which a line may also end in carriage return, line feed.\<close>

fun blank_crlf :: "bool \<Rightarrow> ustr \<Rightarrow> bool" where
  "blank_crlf in_comment [] = True"
| "blank_crlf in_comment (c # cs) =
     (if c = 13 then (case cs of d # ds \<Rightarrow> d = 10 \<and> blank_crlf False ds | [] \<Rightarrow> False)
      else if in_comment then
        (if c = 10 then blank_crlf False cs
         else c \<notin> ILLEGAL_COMMENT_CHARS \<and> blank_crlf True cs)
      else
        (if c \<in> TOML_WS \<or> c = 10 then blank_crlf False cs
         else if c = ord CHR ''#'' then blank_crlf True cs
         else False))"

lemma blank_step:
  assumes "c \<noteq> 13" and "blank_crlf ic (c # rest)"
    and "\<And>ic'. blank_crlf ic' rest \<Longrightarrow> blank ic' R"
  shows "blank ic (c # R)"
  using assms by (cases ic) (auto split: if_splits)

lemma blank_replace_crlf: "blank_crlf ic s \<Longrightarrow> blank ic (replace_crlf s)"
proof (induction s arbitrary: ic rule: replace_crlf.induct)
  case 1
  then show ?case by simp
next
  case (2 c)
  then show ?case by (cases ic) (auto split: if_splits)
next
  case (3 c d cs)
  show ?case
  proof (cases "c = 13 \<and> d = 10")
    case True
    with "3.prems" have "blank_crlf False cs" by simp
    with "3.IH"(1) True have "blank False (replace_crlf cs)" by simp
    with True show ?thesis by (cases ic) simp_all
  next
    case False
    with "3.prems" have c: "c \<noteq> 13" by (auto split: if_splits)
    have "blank ic (c # replace_crlf (d # cs))"
      using c "3.prems" "3.IH"(2) [OF False] by (rule blank_step)
    with False show ?thesis by auto
  qed
qed

lemma length_replace_crlf: "length (replace_crlf s) \<le> length s"
  by (induction s rule: replace_crlf.induct) auto

lemma skip_chars_stops: "length src \<le> skip_chars src pos S \<or> src ! skip_chars src pos S \<notin> S"
proof (induction src pos S rule: skip_chars.induct)
  case (1 src pos chars)
  show ?case
  proof (cases "pos < length src \<and> src ! pos \<in> chars")
    case True
    with "1.IH" show ?thesis by (simp add: skip_chars.simps [of src pos chars])
  next
    case False
    then show ?thesis by (auto simp: skip_chars.simps [of src pos chars])
  qed
qed

lemma skip_chars_blank:
  "blank False (drop pos src) \<Longrightarrow> blank False (drop (skip_chars src pos TOML_WS) src)"
proof (induction src pos TOML_WS rule: skip_chars.induct)
  case (1 src pos)
  show ?case
  proof (cases "pos < length src \<and> src ! pos \<in> TOML_WS")
    case True
    then have "drop pos src = src ! pos # drop (pos + 1) src"
      by (simp add: Cons_nth_drop_Suc)
    with "1.prems" True have "blank False (drop (pos + 1) src)" by simp
    with "1.hyps" True show ?thesis by (simp add: skip_chars.simps [of src pos TOML_WS])
  next
    case False
    with "1.prems" show ?thesis by (auto simp: skip_chars.simps [of src pos TOML_WS])
  qed
qed

lemma skip_until_comment:
  "blank True (drop q src) \<Longrightarrow>
    \<exists>q'. skip_until src q 10 ILLEGAL_COMMENT_CHARS False = Inr q' \<and> q \<le> q'
      \<and> (length src \<le> q' \<or> (src ! q' = 10 \<and> blank False (drop (q' + 1) src)))"
proof (induction src q "10 :: nat" ILLEGAL_COMMENT_CHARS False rule: skip_until.induct)
  case (1 src pos)
  note unf = skip_until.simps [of src pos 10 ILLEGAL_COMMENT_CHARS False]
  show ?case
  proof (cases "pos < length src")
    case False
    then show ?thesis by (auto simp: unf)
  next
    case True
    then have d: "drop pos src = src ! pos # drop (pos + 1) src"
      by (simp add: Cons_nth_drop_Suc)
    show ?thesis
    proof (cases "src ! pos = 10")
      case nl: True
      with "1.prems" d have "blank False (drop (pos + 1) src)" by simp
      with True nl show ?thesis by (auto simp: unf)
    next
      case False
      with "1.prems" d have ok: "src ! pos \<notin> ILLEGAL_COMMENT_CHARS"
        and b: "blank True (drop (pos + 1) src)" by auto
      from "1.hyps" [OF _ False ok b] True obtain q' where
        "skip_until src (pos + 1) 10 ILLEGAL_COMMENT_CHARS False = Inr q'" "pos + 1 \<le> q'"
        "length src \<le> q' \<or> (src ! q' = 10 \<and> blank False (drop (q' + 1) src))"
        by auto
      with True False ok show ?thesis by (auto simp: unf)
    qed
  qed
qed

lemma loads_loop_blank:
  "blank False (drop pos src) \<Longrightarrow> length src - pos < n \<Longrightarrow>
     loads_loop n re pf src pos st = Some (Inr (out st))"
proof (induction n arbitrary: pos)
  case 0
  then show ?case by simp
next
  case (Suc n)
  define p where "p = skip_chars src pos TOML_WS"
  have pge: "pos \<le> p" unfolding p_def by (rule skip_chars_ge)
  have pb: "blank False (drop p src)" unfolding p_def using Suc.prems(1) by (rule skip_chars_blank)
  have pstop: "length src \<le> p \<or> src ! p \<notin> TOML_WS" unfolding p_def by (rule skip_chars_stops)
  note unf = loads_loop.simps(2) [of n re pf src pos st] loads_loop_body_def Let_def
    p_def [symmetric]
  show ?case
  proof (cases "p < length src")
    case False
    then show ?thesis by (simp add: unf char_at_def)
  next
    case True
    then have d: "drop p src = src ! p # drop (p + 1) src" by (simp add: Cons_nth_drop_Suc)
    from True pstop have nws: "src ! p \<notin> TOML_WS" by simp
    from True pge Suc.prems(2) have fuel: "length src - (p + 1) < n" by simp
    show ?thesis
    proof (cases "src ! p = 10")
      case nl: True
      with pb d have "blank False (drop (p + 1) src)" by simp
      then have "loads_loop n re pf src (p + 1) st = Some (Inr (out st))"
        using fuel by (rule Suc.IH)
      with True nl show ?thesis by (simp add: unf char_at_def)
    next
      case False
      with pb d nws have hash: "src ! p = ord CHR ''#''" and c: "blank True (drop (p + 1) src)"
        by (auto split: if_splits)
      from skip_until_comment [OF c] obtain q where
        q: "skip_until src (p + 1) 10 ILLEGAL_COMMENT_CHARS False = Inr q" and qge: "p + 1 \<le> q"
        and qe: "length src \<le> q \<or> (src ! q = 10 \<and> blank False (drop (q + 1) src))"
        by blast
      have sq: "skip_chars src q TOML_WS = q"
        using qe by (subst skip_chars.simps) (auto simp: TOML_WS_def)
      have cq: "skip_comment src q = Inr q"
        using qe by (auto simp: skip_comment_def)
      from q have q': "skip_until src (Suc p) 10 ILLEGAL_COMMENT_CHARS False = Inr q" by simp
      show ?thesis
      proof (cases "q < length src")
        case qin: False
        with True False hash sq cq show ?thesis
          by (simp add: unf char_at_def expect_comment_def q')
      next
        case qin: True
        with qe have q10: "src ! q = 10" and qb: "blank False (drop (q + 1) src)" by auto
        from qin qge pge Suc.prems(2) have "length src - (q + 1) < n" by simp
        with qb have "loads_loop n re pf src (q + 1) st = Some (Inr (out st))"
          by (rule Suc.IH)
        with True False hash sq cq qin q10 show ?thesis
          by (simp add: unf char_at_def expect_comment_def q')
      qed
    qed
  qed
qed

text \<open>
  C10. A document of blank lines and comments gives the empty table: for every text
  that holds only spaces, tabs, newlines (a line feed, or a carriage return and a line
  feed) and comments without control characters other than tabs, the empty text among
  them, \<open>loads\<close> returns the empty table, with any tokenizer and float parser, as soon
  as the fuel exceeds the length of the text (one unit per line is spent).
\<close>

theorem blank_document_gives_empty_table:
  assumes "blank_crlf False s"
  shows "loads (length s + 1 + n) re parse_float s = Some (Inr [])"
proof -
  from assms have "blank False (drop 0 (replace_crlf s))"
    by (simp add: blank_replace_crlf)
  moreover have "length (replace_crlf s) - 0 < length s + 1 + n"
    using length_replace_crlf [of s] by simp
  ultimately have "loads_loop (length s + 1 + n) re parse_float (replace_crlf s) 0 State_init =
      Some (Inr (out State_init))"
    by (rule loads_loop_blank)
  then show ?thesis by (simp add: loads_def State_init_def)
qed

theorem blank_document_gives_empty_table_witness:
  "loads (length (str ''  # c'' @ [13, 10, 10, 9] @ str ''# d'') + 1 + 0) toml_re keep_text
     (str ''  # c'' @ [13, 10, 10, 9] @ str ''# d'') = Some (Inr [])
   \<and> loads (length ([] :: ustr) + 1 + 0) toml_re keep_text [] = Some (Inr [])"
  using
    blank_document_gives_empty_table
      [of "str ''  # c'' @ [13, 10, 10, 9] @ str ''# d''" 0 toml_re keep_text]
    blank_document_gives_empty_table [of "[]" 0 toml_re keep_text]
  by (simp add: str_def TOML_WS_def ILLEGAL_COMMENT_CHARS_def ILLEGAL_BASIC_STR_CHARS_def
      ASCII_CTRL_def)

end
